theory Spec2Isabelle
  imports Complex_Main
begin

section \<open>Entities of the half-edge data structure\<close>

text \<open>
  \<^verbatim>\<open>Triangulation.h\<close> derives from \<^verbatim>\<open>hds::HDS\<close>, whose header is not part of the
  sources at hand.  The entity classes and the store are therefore modelled from the
  specification (sections 3 and 4.1): four kinds of entities with stable handles, a
  halfedge carrying origin, pair, next, prev and face, an edge owning two halfedges.

  A handle is a natural number that the store never hands out twice; a null handle is
  \<open>None\<close>.  The two halfedges of edge \<open>e\<close> have the handles \<open>He e False\<close> (\<^verbatim>\<open>he1\<close>) and
  \<open>He e True\<close> (\<^verbatim>\<open>he2\<close>).
\<close>

type_synonym node_handle = nat
type_synonym edge_handle = nat
type_synonym face_handle = nat
datatype halfedge_handle = He (edge_id: edge_handle) (second: bool)

record point =
  px :: real
  py :: real

record node =
  position :: point
  n_halfedge :: "halfedge_handle option"

record halfedge =
  h_origin :: "node_handle option"
  h_pair :: halfedge_handle
  h_next :: halfedge_handle
  h_prev :: halfedge_handle
  h_face :: "face_handle option"

record face =
  f_halfedge :: "halfedge_handle option"

record mesh =
  nodes :: "node_handle \<rightharpoonup> node"
  hedges :: "halfedge_handle \<rightharpoonup> halfedge"
  faces :: "face_handle \<rightharpoonup> face"
  node_ctr :: nat
  edge_ctr :: nat
  face_ctr :: nat

definition empty_mesh :: mesh where
  "empty_mesh = \<lparr>nodes = Map.empty, hedges = Map.empty, faces = Map.empty,
     node_ctr = 0, edge_ctr = 0, face_ctr = 0\<rparr>"

section \<open>Exceptions and the state\<close>

text \<open>
  \<^verbatim>\<open>bad_topology_error\<close> and \<^verbatim>\<open>add_face_error\<close> (with the three messages of \<^verbatim>\<open>add_face\<close>) are
  the exceptions of the source.  A failed \<^verbatim>\<open>BOOST_ASSERT\<close> is \<open>AssertionFailed\<close>;
  dereferencing a null or deleted handle, undefined in C++, is \<open>InvalidHandle\<close>.
  An operation maps a mesh to \<open>None\<close> when it does not return, and otherwise to its
  outcome together with the mesh it leaves behind: an exception does not undo the
  writes made before it was thrown.
\<close>

datatype face_reason = NotFree | NotChain | NonManifold

datatype error = TopologyError | FaceError face_reason | AssertionFailed | InvalidHandle

type_synonym 'a M = "mesh \<Rightarrow> ((error + 'a) \<times> mesh) option"

definition ret :: "'a \<Rightarrow> 'a M" where
  "ret a = (\<lambda>m. Some (Inr a, m))"

definition throw :: "error \<Rightarrow> 'a M" where
  "throw e = (\<lambda>m. Some (Inl e, m))"

definition bnd :: "'a M \<Rightarrow> ('a \<Rightarrow> 'b M) \<Rightarrow> 'b M" where
  "bnd f g = (\<lambda>m. case f m of None \<Rightarrow> None
       | Some (Inl e, m') \<Rightarrow> Some (Inl e, m')
       | Some (Inr a, m') \<Rightarrow> g a m')"

definition deref :: "'a option \<Rightarrow> 'a M" where
  "deref h = (case h of None \<Rightarrow> throw InvalidHandle | Some a \<Rightarrow> ret a)"

subsection \<open>Store operations\<close>

text \<open>
  Modelled from the spec: the allocation and deletion operations of the entity store
  (\<^verbatim>\<open>get_new_node\<close>, \<^verbatim>\<open>get_new_edge\<close>, \<^verbatim>\<open>get_new_face\<close>, \<^verbatim>\<open>delete_node\<close>, \<^verbatim>\<open>delete_edge\<close>,
  \<^verbatim>\<open>delete_face\<close> of \<^verbatim>\<open>hds::HDS\<close>).  A new node is isolated; a new edge comes with both
  halfedges linked as a stub: each is the pair, the next and the prev of the other, with
  null origin and null face.
\<close>

definition get_new_node :: "node_handle M" where
  "get_new_node = (\<lambda>m. Some (Inr (node_ctr m),
     m\<lparr>nodes := (nodes m)(node_ctr m \<mapsto> \<lparr>position = \<lparr>px = 0, py = 0\<rparr>, n_halfedge = None\<rparr>),
       node_ctr := Suc (node_ctr m)\<rparr>))"

definition stub :: "halfedge_handle \<Rightarrow> halfedge" where
  "stub other = \<lparr>h_origin = None, h_pair = other, h_next = other, h_prev = other, h_face = None\<rparr>"

definition get_new_edge :: "edge_handle M" where
  "get_new_edge = (\<lambda>m. Some (Inr (edge_ctr m),
     m\<lparr>hedges := (hedges m)(He (edge_ctr m) False \<mapsto> stub (He (edge_ctr m) True),
                              He (edge_ctr m) True \<mapsto> stub (He (edge_ctr m) False)),
       edge_ctr := Suc (edge_ctr m)\<rparr>))"

definition get_new_face :: "face_handle M" where
  "get_new_face = (\<lambda>m. Some (Inr (face_ctr m),
     m\<lparr>faces := (faces m)(face_ctr m \<mapsto> \<lparr>f_halfedge = None\<rparr>),
       face_ctr := Suc (face_ctr m)\<rparr>))"

definition delete_node :: "node_handle \<Rightarrow> unit M" where
  "delete_node n = (\<lambda>m. case nodes m n of None \<Rightarrow> Some (Inl InvalidHandle, m)
     | Some _ \<Rightarrow> Some (Inr (), m\<lparr>nodes := (nodes m)(n := None)\<rparr>))"

definition delete_edge :: "edge_handle \<Rightarrow> unit M" where
  "delete_edge e = (\<lambda>m. if hedges m (He e False) = None \<or> hedges m (He e True) = None
     then Some (Inl InvalidHandle, m)
     else Some (Inr (), m\<lparr>hedges := (hedges m)(He e False := None, He e True := None)\<rparr>))"

definition delete_face :: "face_handle \<Rightarrow> unit M" where
  "delete_face f = (\<lambda>m. case faces m f of None \<Rightarrow> Some (Inl InvalidHandle, m)
     | Some _ \<Rightarrow> Some (Inr (), m\<lparr>faces := (faces m)(f := None)\<rparr>))"

subsection \<open>Entity accessors\<close>

text \<open>
  Modelled from the spec: the member functions of the entity classes of \<^verbatim>\<open>hds::HDS\<close>
  that \<^verbatim>\<open>Triangulation.h\<close> calls.  Each dereferences its handle first.
\<close>

definition get_node :: "node_handle \<Rightarrow> node M" where
  "get_node n = (\<lambda>m. case nodes m n of None \<Rightarrow> Some (Inl InvalidHandle, m)
     | Some r \<Rightarrow> Some (Inr r, m))"

definition put_node :: "node_handle \<Rightarrow> (node \<Rightarrow> node) \<Rightarrow> unit M" where
  "put_node n f = (\<lambda>m. case nodes m n of None \<Rightarrow> Some (Inl InvalidHandle, m)
     | Some r \<Rightarrow> Some (Inr (), m\<lparr>nodes := (nodes m)(n \<mapsto> f r)\<rparr>))"

definition get_he :: "halfedge_handle \<Rightarrow> halfedge M" where
  "get_he h = (\<lambda>m. case hedges m h of None \<Rightarrow> Some (Inl InvalidHandle, m)
     | Some r \<Rightarrow> Some (Inr r, m))"

definition put_he :: "halfedge_handle \<Rightarrow> (halfedge \<Rightarrow> halfedge) \<Rightarrow> unit M" where
  "put_he h f = (\<lambda>m. case hedges m h of None \<Rightarrow> Some (Inl InvalidHandle, m)
     | Some r \<Rightarrow> Some (Inr (), m\<lparr>hedges := (hedges m)(h \<mapsto> f r)\<rparr>))"

definition get_fc :: "face_handle \<Rightarrow> face M" where
  "get_fc f = (\<lambda>m. case faces m f of None \<Rightarrow> Some (Inl InvalidHandle, m)
     | Some r \<Rightarrow> Some (Inr r, m))"

definition put_fc :: "face_handle \<Rightarrow> (face \<Rightarrow> face) \<Rightarrow> unit M" where
  "put_fc f g = (\<lambda>m. case faces m f of None \<Rightarrow> Some (Inl InvalidHandle, m)
     | Some r \<Rightarrow> Some (Inr (), m\<lparr>faces := (faces m)(f \<mapsto> g r)\<rparr>))"

definition halfedge_of :: "node_handle \<Rightarrow> halfedge_handle option M" where
  "halfedge_of n = bnd (get_node n) (\<lambda>r. ret (n_halfedge r))"

definition is_isolated :: "node_handle \<Rightarrow> bool M" where
  "is_isolated n = bnd (get_node n) (\<lambda>r. ret (n_halfedge r = None))"

definition get_position :: "node_handle \<Rightarrow> point M" where
  "get_position n = bnd (get_node n) (\<lambda>r. ret (position r))"

definition set_position :: "node_handle \<Rightarrow> point \<Rightarrow> unit M" where
  "set_position n p = put_node n (\<lambda>r. r\<lparr>position := p\<rparr>)"

definition set_halfedge :: "node_handle \<Rightarrow> halfedge_handle option \<Rightarrow> unit M" where
  "set_halfedge n h = put_node n (\<lambda>r. r\<lparr>n_halfedge := h\<rparr>)"

definition get_origin :: "halfedge_handle \<Rightarrow> node_handle option M" where
  "get_origin h = bnd (get_he h) (\<lambda>r. ret (h_origin r))"

definition get_pair :: "halfedge_handle \<Rightarrow> halfedge_handle M" where
  "get_pair h = bnd (get_he h) (\<lambda>r. ret (h_pair r))"

definition get_next :: "halfedge_handle \<Rightarrow> halfedge_handle M" where
  "get_next h = bnd (get_he h) (\<lambda>r. ret (h_next r))"

definition get_prev :: "halfedge_handle \<Rightarrow> halfedge_handle M" where
  "get_prev h = bnd (get_he h) (\<lambda>r. ret (h_prev r))"

definition get_face :: "halfedge_handle \<Rightarrow> face_handle option M" where
  "get_face h = bnd (get_he h) (\<lambda>r. ret (h_face r))"

definition is_boundary :: "halfedge_handle \<Rightarrow> bool M" where
  "is_boundary h = bnd (get_he h) (\<lambda>r. ret (h_face r = None))"

definition edge_of :: "halfedge_handle \<Rightarrow> edge_handle M" where
  "edge_of h = bnd (get_he h) (\<lambda>_. ret (edge_id h))"

definition he1 :: "edge_handle \<Rightarrow> halfedge_handle M" where
  "he1 e = bnd (get_he (He e False)) (\<lambda>_. ret (He e False))"

definition he2 :: "edge_handle \<Rightarrow> halfedge_handle M" where
  "he2 e = bnd (get_he (He e True)) (\<lambda>_. ret (He e True))"

definition set_origin :: "halfedge_handle \<Rightarrow> node_handle option \<Rightarrow> unit M" where
  "set_origin h n = put_he h (\<lambda>r. r\<lparr>h_origin := n\<rparr>)"

definition set_next :: "halfedge_handle \<Rightarrow> halfedge_handle \<Rightarrow> unit M" where
  "set_next h x = put_he h (\<lambda>r. r\<lparr>h_next := x\<rparr>)"

definition set_prev :: "halfedge_handle \<Rightarrow> halfedge_handle \<Rightarrow> unit M" where
  "set_prev h x = put_he h (\<lambda>r. r\<lparr>h_prev := x\<rparr>)"

definition set_face :: "halfedge_handle \<Rightarrow> face_handle option \<Rightarrow> unit M" where
  "set_face h f = put_he h (\<lambda>r. r\<lparr>h_face := f\<rparr>)"

definition face_halfedge :: "face_handle \<Rightarrow> halfedge_handle M" where
  "face_halfedge f = bnd (get_fc f) (\<lambda>r. deref (f_halfedge r))"

definition face_set_halfedge :: "face_handle \<Rightarrow> halfedge_handle \<Rightarrow> unit M" where
  "face_set_halfedge f h = put_fc f (\<lambda>r. r\<lparr>f_halfedge := Some h\<rparr>)"


section \<open>Loops that may not return\<close>

text \<open>
  The loops of the source are recursive functions into \<open>option\<close>; the two lemmas let a
  recursive call stand in the continuation of \<open>bnd\<close> and under a conditional.
\<close>

lemma bnd_mono [partial_function_mono]:
  fixes A :: "('x \<Rightarrow> 'y option) \<Rightarrow> 'a M" and C :: "('x \<Rightarrow> 'y option) \<Rightarrow> 'a \<Rightarrow> 'b M"
  assumes A: "\<And>m. mono_option (\<lambda>F. A F m)" and C: "\<And>a m. mono_option (\<lambda>F. C F a m)"
  shows "mono_option (\<lambda>F. bnd (A F) (C F) m)"
proof (rule monotoneI)
  fix F G :: "'x \<Rightarrow> 'y option"
  assume le: "option.le_fun F G"
  have a: "A F m = None \<or> A F m = A G m"
    using A le unfolding monotone_def flat_ord_def by blast
  have c: "C F x m' = None \<or> C F x m' = C G x m'" for x m'
    using C le unfolding monotone_def flat_ord_def by blast
  show "option_ord (bnd (A F) (C F) m) (bnd (A G) (C G) m)"
  proof (cases "A F m")
    case None
    then show ?thesis by (simp add: bnd_def flat_ord_def)
  next
    case (Some r)
    with a have "A G m = Some r" by simp
    with Some c show ?thesis
      by (cases r; cases "fst r") (auto simp: bnd_def flat_ord_def)
  qed
qed

lemma if_app_mono [partial_function_mono]:
  assumes "mono_option (\<lambda>F. A F m)" and "mono_option (\<lambda>F. B F m)"
  shows "mono_option (\<lambda>F. (if c then A F else B F) m)"
  using assms by (cases c) simp_all

section \<open>The connectivity core (private members of \<^verbatim>\<open>Triangulation\<close>)\<close>

text \<open>
  The \<^verbatim>\<open>do ... while\<close> loop shared by the two overloads of
  \<^verbatim>\<open>find_free_incident_halfedge\<close>: return the current halfedge when it is a boundary
  halfedge, otherwise step to \<^verbatim>\<open>next()->pair()\<close> and go on until \<open>he_stop\<close> is met, where
  \<^verbatim>\<open>bad_topology_error\<close> is thrown.
\<close>

partial_function (option) ffih_loop ::
  "halfedge_handle \<Rightarrow> halfedge_handle \<Rightarrow> mesh \<Rightarrow> ((error + halfedge_handle) \<times> mesh) option" where
  "ffih_loop he_stop he_iter m =
     bnd (is_boundary he_iter) (\<lambda>b. if b then ret he_iter
       else bnd (get_next he_iter) (\<lambda>nx. bnd (get_pair nx) (\<lambda>it.
         if it \<noteq> he_stop then ffih_loop he_stop it else throw TopologyError))) m"

declare ffih_loop.simps [code]

text \<open>\<^verbatim>\<open>find_free_incident_halfedge( Node_handle n )\<close>\<close>

definition find_free_incident_halfedge_n :: "node_handle \<Rightarrow> halfedge_handle M" where
  "find_free_incident_halfedge_n n =
     bnd (is_isolated n) (\<lambda>iso. if iso then throw AssertionFailed
       else bnd (halfedge_of n) (\<lambda>nh. bnd (deref nh) (\<lambda>h. bnd (get_pair h) (\<lambda>he_start.
         ffih_loop he_start he_start))))"

text \<open>\<^verbatim>\<open>find_free_incident_halfedge( Halfedge_handle he1, Halfedge_handle he2 )\<close>\<close>

definition find_free_incident_halfedge_h ::
  "halfedge_handle \<Rightarrow> halfedge_handle \<Rightarrow> halfedge_handle M" where
  "find_free_incident_halfedge_h h1 h2 =
     bnd (get_pair h1) (\<lambda>p1. bnd (get_origin p1) (\<lambda>o1.
     bnd (get_pair h2) (\<lambda>p2. bnd (get_origin p2) (\<lambda>o2.
       if o1 \<noteq> o2 then throw AssertionFailed else ffih_loop h2 h1))))"

definition attach_halfedge_to_node :: "halfedge_handle \<Rightarrow> node_handle \<Rightarrow> unit M" where
  "attach_halfedge_to_node he n =
     bnd (set_origin he (Some n)) (\<lambda>_.
     bnd (is_isolated n) (\<lambda>iso.
       if iso then
         bnd (set_halfedge n (Some he)) (\<lambda>_.
         bnd (get_pair he) (\<lambda>p. bnd (set_prev he p) (\<lambda>_.
         bnd (get_pair he) (\<lambda>p'. set_next p' he))))
       else
         bnd (find_free_incident_halfedge_n n) (\<lambda>free_in_he.
         bnd (get_next free_in_he) (\<lambda>free_out_he.
         bnd (set_next free_in_he he) (\<lambda>_.
         bnd (set_prev he free_in_he) (\<lambda>_.
         bnd (get_pair he) (\<lambda>p. bnd (set_next p free_out_he) (\<lambda>_.
         bnd (get_pair he) (\<lambda>p'. set_prev free_out_he p')))))))))"

definition make_adjacent :: "halfedge_handle \<Rightarrow> halfedge_handle \<Rightarrow> bool M" where
  "make_adjacent he_in he_out =
     bnd (get_next he_in) (\<lambda>nx.
       if nx = he_out then ret True
       else
         bnd (get_next he_in) (\<lambda>b.
         bnd (get_prev he_out) (\<lambda>d.
         bnd (get_origin he_out) (\<lambda>n.
         bnd (get_pair he_out) (\<lambda>op.
         bnd (find_free_incident_halfedge_h op he_in) (\<lambda>g.
         bnd (get_next g) (\<lambda>h.
         bnd (set_next he_in he_out) (\<lambda>_.
         bnd (set_prev he_out he_in) (\<lambda>_.
         bnd (set_next g b) (\<lambda>_.
         bnd (set_prev b g) (\<lambda>_.
         bnd (set_next d h) (\<lambda>_.
         bnd (set_prev h d) (\<lambda>_.
         ret True)))))))))))))"

definition detach_edge :: "halfedge_handle \<Rightarrow> unit M" where
  "detach_edge he =
     bnd (get_origin he) (\<lambda>no. bnd (deref no) (\<lambda>n.
     bnd (halfedge_of n) (\<lambda>nh.
     bnd (if nh = Some he then
            bnd (get_pair he) (\<lambda>p. bnd (get_next p) (\<lambda>pn.
              if pn \<noteq> he then set_halfedge n (Some pn) else set_halfedge n None))
          else ret ()) (\<lambda>_.
     bnd (get_prev he) (\<lambda>pv. bnd (get_pair he) (\<lambda>p. bnd (get_next p) (\<lambda>pn.
     bnd (set_next pv pn) (\<lambda>_.
     bnd (get_pair he) (\<lambda>p'. bnd (get_next p') (\<lambda>pn'. bnd (get_prev he) (\<lambda>pv'.
       set_prev pn' pv')))))))))))"

section \<open>The public operations of \<^verbatim>\<open>Triangulation\<close>\<close>

definition add_node :: "point \<Rightarrow> node_handle M" where
  "add_node p = bnd get_new_node (\<lambda>n. bnd (set_position n p) (\<lambda>_. ret n))"

definition remove_face :: "face_handle \<Rightarrow> unit M" where
  "remove_face f =
     bnd (face_halfedge f) (\<lambda>h. bnd (set_face h None) (\<lambda>_.
     bnd (face_halfedge f) (\<lambda>h'. bnd (get_next h') (\<lambda>hn. bnd (set_face hn None) (\<lambda>_.
     bnd (face_halfedge f) (\<lambda>h''. bnd (get_prev h'') (\<lambda>hp. bnd (set_face hp None) (\<lambda>_.
     delete_face f))))))))"

definition remove_edge :: "edge_handle \<Rightarrow> unit M" where
  "remove_edge e =
     bnd (he1 e) (\<lambda>h1. bnd (is_boundary h1) (\<lambda>b1.
     bnd (if \<not> b1 then bnd (get_face h1) (\<lambda>fo. bnd (deref fo) remove_face) else ret ()) (\<lambda>_.
     bnd (he2 e) (\<lambda>h2. bnd (is_boundary h2) (\<lambda>b2.
     bnd (if \<not> b2 then bnd (get_face h2) (\<lambda>fo. bnd (deref fo) remove_face) else ret ()) (\<lambda>_.
     bnd (he1 e) (\<lambda>h1'. bnd (detach_edge h1') (\<lambda>_.
     bnd (he2 e) (\<lambda>h2'. bnd (detach_edge h2') (\<lambda>_.
     delete_edge e))))))))))"

text \<open>
  The loop of \<^verbatim>\<open>remove_node\<close>; \<open>nx\<close> is the local variable \<^verbatim>\<open>next\<close>, null when the node
  was isolated from the start.
\<close>

partial_function (option) remove_node_loop ::
  "node_handle \<Rightarrow> halfedge_handle option \<Rightarrow> mesh \<Rightarrow> ((error + unit) \<times> mesh) option" where
  "remove_node_loop n nx m =
     bnd (is_isolated n) (\<lambda>iso. if iso then ret ()
       else bnd (deref nx) (\<lambda>cur. bnd (get_pair cur) (\<lambda>p. bnd (get_next p) (\<lambda>nx'.
            bnd (edge_of cur) (\<lambda>e. bnd (remove_edge e) (\<lambda>_.
            remove_node_loop n (Some nx'))))))) m"

declare remove_node_loop.simps [code]

definition remove_node :: "node_handle \<Rightarrow> unit M" where
  "remove_node n =
     bnd (halfedge_of n) (\<lambda>nx. bnd (remove_node_loop n nx) (\<lambda>_. delete_node n))"

text \<open>
  \<^verbatim>\<open>add_edge\<close>: the \<^verbatim>\<open>catch\<close> block only adds a description to the exception and throws it
  again.
\<close>

definition add_edge :: "node_handle \<Rightarrow> node_handle \<Rightarrow> halfedge_handle M" where
  "add_edge n1 n2 =
     (if n1 = n2 then throw AssertionFailed
      else bnd get_new_edge (\<lambda>e. bnd (he1 e) (\<lambda>h1. bnd (he2 e) (\<lambda>h2.
           bnd (attach_halfedge_to_node h1 n1) (\<lambda>_.
           bnd (attach_halfedge_to_node h2 n2) (\<lambda>_. ret h1))))))"

text \<open>The short-circuit conjunction \<^verbatim>\<open>&&\<close>.\<close>

definition and_also :: "bool M \<Rightarrow> bool M \<Rightarrow> bool M" where
  "and_also a b = bnd a (\<lambda>x. if x then b else ret False)"

text \<open>\<^verbatim>\<open>a->pair()->origin() == b->origin()\<close>\<close>

definition chained :: "halfedge_handle \<Rightarrow> halfedge_handle \<Rightarrow> bool M" where
  "chained a b = bnd (get_pair a) (\<lambda>p. bnd (get_origin p) (\<lambda>o1. bnd (get_origin b) (\<lambda>o2.
     ret (o1 = o2))))"

definition add_face ::
  "halfedge_handle \<Rightarrow> halfedge_handle \<Rightarrow> halfedge_handle \<Rightarrow> face_handle M" where
  "add_face h1 h2 h3 =
     bnd (and_also (is_boundary h1) (and_also (is_boundary h2) (is_boundary h3))) (\<lambda>free.
     if \<not> free then throw (FaceError NotFree) else
     bnd (and_also (chained h1 h2) (and_also (chained h2 h3) (chained h3 h1))) (\<lambda>chain.
     if \<not> chain then throw (FaceError NotChain) else
     bnd (and_also (make_adjacent h1 h2)
           (and_also (make_adjacent h2 h3) (make_adjacent h3 h1))) (\<lambda>adjacent.
     if \<not> adjacent then throw (FaceError NonManifold) else
     bnd get_new_face (\<lambda>f.
     bnd (face_set_halfedge f h1) (\<lambda>_.
     bnd (set_face h1 (Some f)) (\<lambda>_.
     bnd (set_face h2 (Some f)) (\<lambda>_.
     bnd (set_face h3 (Some f)) (\<lambda>_.
     ret f))))))))"


definition split_face :: "face_handle \<Rightarrow> point \<Rightarrow> node_handle M" where
  "split_face f p =
     bnd (face_halfedge f) (\<lambda>h1. bnd (get_next h1) (\<lambda>h2. bnd (get_prev h1) (\<lambda>h3.
     bnd (remove_face f) (\<lambda>_.
     bnd (add_node p) (\<lambda>n_new.
     bnd (get_origin h1) (\<lambda>o1. bnd (deref o1) (\<lambda>n1. bnd (add_edge n_new n1) (\<lambda>h4.
     bnd (get_origin h2) (\<lambda>o2. bnd (deref o2) (\<lambda>n2. bnd (add_edge n_new n2) (\<lambda>h5.
     bnd (get_origin h3) (\<lambda>o3. bnd (deref o3) (\<lambda>n3. bnd (add_edge n_new n3) (\<lambda>h6.
     bnd (get_pair h5) (\<lambda>h5p. bnd (add_face h4 h1 h5p) (\<lambda>_.
     bnd (get_pair h6) (\<lambda>h6p. bnd (add_face h5 h2 h6p) (\<lambda>_.
     bnd (get_pair h4) (\<lambda>h4p. bnd (add_face h6 h3 h4p) (\<lambda>_.
     ret n_new))))))))))))))))))))"


section \<open>Point location\<close>

text \<open>
  The kernel (\<^verbatim>\<open>Exact_adaptive_kernel.h\<close>, \<^verbatim>\<open>Orientation.h\<close>) is not part of the sources at
  hand: \<^verbatim>\<open>Kernel::oriented_side\<close> is a parameter \<open>os\<close> of \<^verbatim>\<open>locate\<close>.
  Modelled from the spec: \<^verbatim>\<open>faces_begin\<close>, the first face of the forward enumeration, taken
  here in the order of the handles.

  \<^verbatim>\<open>locate\<close> returns a face handle and writes \<^verbatim>\<open>loc\<close>, \<^verbatim>\<open>on_node\<close> and \<^verbatim>\<open>on_edge\<close>; in a
  \<open>location\<close>, \<open>None\<close> for \<open>on_node\<close> or \<open>on_edge\<close> means that the reference was not
  written.
\<close>

datatype Oriented_side = ON_NEGATIVE_SIDE | ON_ORIENTED_BOUNDARY | ON_POSITIVE_SIDE

datatype Point_location = IN_FACE | ON_EDGE | ON_NODE | OUTSIDE_MESH

record location =
  loc :: Point_location
  on_node :: "node_handle option"
  on_edge :: "edge_handle option"
  face_found :: "face_handle option"

type_synonym kernel = "point \<Rightarrow> point \<Rightarrow> point \<Rightarrow> Oriented_side"

definition faces_begin :: "face_handle option M" where
  "faces_begin = (\<lambda>m. Some (Inr (case filter (\<lambda>f. faces m f \<noteq> None) [0..<face_ctr m] of
       [] \<Rightarrow> None | f # _ \<Rightarrow> Some f), m))"

text \<open>
  One turn of the \<^verbatim>\<open>while ( true )\<close> loop yields either the result with which \<^verbatim>\<open>locate\<close>
  returns, or the new values of \<^verbatim>\<open>he_start\<close> and \<^verbatim>\<open>he_iter\<close>.  The three cases of the
  \<^verbatim>\<open>switch\<close> follow; \<^verbatim>\<open>case ON_ORIENTED_BOUNDARY\<close> has no \<^verbatim>\<open>break\<close> and runs into
  \<^verbatim>\<open>case ON_NEGATIVE_SIDE\<close>.
\<close>

type_synonym walk = "location + halfedge_handle \<times> halfedge_handle"

definition case_positive :: "halfedge_handle \<Rightarrow> halfedge_handle \<Rightarrow> walk M" where
  "case_positive he_start he_iter =
     bnd (get_next he_iter) (\<lambda>nx.
       if nx = he_start then
         bnd (get_face nx) (\<lambda>f.
           ret (Inl \<lparr>loc = IN_FACE, on_node = None, on_edge = None, face_found = f\<rparr>))
       else ret (Inr (he_start, nx)))"

definition case_negative :: "halfedge_handle \<Rightarrow> halfedge_handle \<Rightarrow> walk M" where
  "case_negative he_start he_iter =
     bnd (get_pair he_iter) (\<lambda>p. bnd (is_boundary p) (\<lambda>b.
       if b then
         bnd (edge_of he_iter) (\<lambda>e.
           ret (Inl \<lparr>loc = OUTSIDE_MESH, on_node = None, on_edge = Some e, face_found = None\<rparr>))
       else
         bnd (get_pair he_iter) (\<lambda>he_iter'. bnd (get_next he_iter') (\<lambda>he_iter''.
           ret (Inr (he_iter', he_iter''))))))"

definition strictly_between :: "point \<Rightarrow> point \<Rightarrow> point \<Rightarrow> bool" where
  "strictly_between p1 p2 p \<longleftrightarrow>
     (min (px p1) (px p2) < px p \<and> px p < max (px p1) (px p2)) \<or>
     (min (py p1) (py p2) < py p \<and> py p < max (py p1) (py p2))"

definition case_boundary ::
  "point \<Rightarrow> point \<Rightarrow> point \<Rightarrow> halfedge_handle \<Rightarrow> halfedge_handle \<Rightarrow> walk M" where
  "case_boundary p1 p2 p he_start he_iter =
     (if strictly_between p1 p2 p then
        bnd (edge_of he_iter) (\<lambda>e.
          ret (Inl \<lparr>loc = ON_EDGE, on_node = None, on_edge = Some e, face_found = None\<rparr>))
      else if p = p1 then
        bnd (get_origin he_iter) (\<lambda>n.
          ret (Inl \<lparr>loc = ON_NODE, on_node = n, on_edge = None, face_found = None\<rparr>))
      else if p = p2 then
        bnd (get_pair he_iter) (\<lambda>q. bnd (get_origin q) (\<lambda>n.
          ret (Inl \<lparr>loc = ON_NODE, on_node = n, on_edge = None, face_found = None\<rparr>)))
      else case_negative he_start he_iter)"

definition locate_step ::
  "kernel \<Rightarrow> point \<Rightarrow> halfedge_handle \<Rightarrow> halfedge_handle \<Rightarrow> walk M" where
  "locate_step os p he_start he_iter =
     bnd (get_origin he_iter) (\<lambda>o1. bnd (deref o1) (\<lambda>n1. bnd (get_position n1) (\<lambda>p1.
     bnd (get_pair he_iter) (\<lambda>q. bnd (get_origin q) (\<lambda>o2. bnd (deref o2) (\<lambda>n2.
     bnd (get_position n2) (\<lambda>p2.
       case os p1 p2 p of
         ON_POSITIVE_SIDE \<Rightarrow> case_positive he_start he_iter
       | ON_ORIENTED_BOUNDARY \<Rightarrow> case_boundary p1 p2 p he_start he_iter
       | ON_NEGATIVE_SIDE \<Rightarrow> case_negative he_start he_iter)))))))"

partial_function (option) locate_loop ::
  "kernel \<Rightarrow> point \<Rightarrow> halfedge_handle \<Rightarrow> halfedge_handle \<Rightarrow> mesh
     \<Rightarrow> ((error + location) \<times> mesh) option" where
  "locate_loop os p he_start he_iter m =
     bnd (locate_step os p he_start he_iter) (\<lambda>w.
       if isl w then ret (projl w)
       else locate_loop os p (fst (projr w)) (snd (projr w))) m"

declare locate_loop.simps [code]

definition locate :: "kernel \<Rightarrow> point \<Rightarrow> face_handle option \<Rightarrow> location M" where
  "locate os p start_face =
     bnd (case start_face of
            None \<Rightarrow> bnd faces_begin (\<lambda>f. bnd (deref f) face_halfedge)
          | Some f \<Rightarrow> face_halfedge f) (\<lambda>he_start.
     locate_loop os p he_start he_start)"


section \<open>Reading and writing the state\<close>

text \<open>
  The fields of the entities as functions of the mesh and a handle, and the writes of the
  accessors as functions on meshes.  The accessors of the previous section are these
  functions behind a check that the handle is alive.
\<close>

definition vh :: "mesh \<Rightarrow> halfedge_handle \<Rightarrow> bool" where
  "vh m h \<longleftrightarrow> hedges m h \<noteq> None"

definition vn :: "mesh \<Rightarrow> node_handle \<Rightarrow> bool" where
  "vn m n \<longleftrightarrow> nodes m n \<noteq> None"

definition vf :: "mesh \<Rightarrow> face_handle \<Rightarrow> bool" where
  "vf m f \<longleftrightarrow> faces m f \<noteq> None"

definition org :: "mesh \<Rightarrow> halfedge_handle \<Rightarrow> node_handle option" where
  "org m h = h_origin (the (hedges m h))"

definition par :: "mesh \<Rightarrow> halfedge_handle \<Rightarrow> halfedge_handle" where
  "par m h = h_pair (the (hedges m h))"

definition nxt :: "mesh \<Rightarrow> halfedge_handle \<Rightarrow> halfedge_handle" where
  "nxt m h = h_next (the (hedges m h))"

definition prv :: "mesh \<Rightarrow> halfedge_handle \<Rightarrow> halfedge_handle" where
  "prv m h = h_prev (the (hedges m h))"

definition fac :: "mesh \<Rightarrow> halfedge_handle \<Rightarrow> face_handle option" where
  "fac m h = h_face (the (hedges m h))"

definition nhe :: "mesh \<Rightarrow> node_handle \<Rightarrow> halfedge_handle option" where
  "nhe m n = n_halfedge (the (nodes m n))"

definition pos :: "mesh \<Rightarrow> node_handle \<Rightarrow> point" where
  "pos m n = position (the (nodes m n))"

definition fhe :: "mesh \<Rightarrow> face_handle \<Rightarrow> halfedge_handle option" where
  "fhe m f = f_halfedge (the (faces m f))"

definition upd_he :: "halfedge_handle \<Rightarrow> (halfedge \<Rightarrow> halfedge) \<Rightarrow> mesh \<Rightarrow> mesh" where
  "upd_he h f m = (if vh m h then m\<lparr>hedges := (hedges m)(h \<mapsto> f (the (hedges m h)))\<rparr> else m)"

definition upd_node :: "node_handle \<Rightarrow> (node \<Rightarrow> node) \<Rightarrow> mesh \<Rightarrow> mesh" where
  "upd_node n f m = (if vn m n then m\<lparr>nodes := (nodes m)(n \<mapsto> f (the (nodes m n)))\<rparr> else m)"

definition upd_face :: "face_handle \<Rightarrow> (face \<Rightarrow> face) \<Rightarrow> mesh \<Rightarrow> mesh" where
  "upd_face f g m = (if vf m f then m\<lparr>faces := (faces m)(f \<mapsto> g (the (faces m f)))\<rparr> else m)"

definition w_origin :: "halfedge_handle \<Rightarrow> node_handle option \<Rightarrow> mesh \<Rightarrow> mesh" where
  "w_origin h n = upd_he h (\<lambda>r. r\<lparr>h_origin := n\<rparr>)"

definition w_next :: "halfedge_handle \<Rightarrow> halfedge_handle \<Rightarrow> mesh \<Rightarrow> mesh" where
  "w_next h x = upd_he h (\<lambda>r. r\<lparr>h_next := x\<rparr>)"

definition w_prev :: "halfedge_handle \<Rightarrow> halfedge_handle \<Rightarrow> mesh \<Rightarrow> mesh" where
  "w_prev h x = upd_he h (\<lambda>r. r\<lparr>h_prev := x\<rparr>)"

definition w_face :: "halfedge_handle \<Rightarrow> face_handle option \<Rightarrow> mesh \<Rightarrow> mesh" where
  "w_face h f = upd_he h (\<lambda>r. r\<lparr>h_face := f\<rparr>)"

definition w_nhe :: "node_handle \<Rightarrow> halfedge_handle option \<Rightarrow> mesh \<Rightarrow> mesh" where
  "w_nhe n h = upd_node n (\<lambda>r. r\<lparr>n_halfedge := h\<rparr>)"

definition w_pos :: "node_handle \<Rightarrow> point \<Rightarrow> mesh \<Rightarrow> mesh" where
  "w_pos n p = upd_node n (\<lambda>r. r\<lparr>position := p\<rparr>)"

definition w_fhe :: "face_handle \<Rightarrow> halfedge_handle option \<Rightarrow> mesh \<Rightarrow> mesh" where
  "w_fhe f h = upd_face f (\<lambda>r. r\<lparr>f_halfedge := h\<rparr>)"

definition new_node :: "mesh \<Rightarrow> mesh" where
  "new_node m = m\<lparr>nodes := (nodes m)(node_ctr m \<mapsto> \<lparr>position = \<lparr>px = 0, py = 0\<rparr>, n_halfedge = None\<rparr>),
       node_ctr := Suc (node_ctr m)\<rparr>"

definition new_edge :: "mesh \<Rightarrow> mesh" where
  "new_edge m = m\<lparr>hedges := (hedges m)(He (edge_ctr m) False \<mapsto> stub (He (edge_ctr m) True),
                              He (edge_ctr m) True \<mapsto> stub (He (edge_ctr m) False)),
       edge_ctr := Suc (edge_ctr m)\<rparr>"

definition new_face :: "mesh \<Rightarrow> mesh" where
  "new_face m = m\<lparr>faces := (faces m)(face_ctr m \<mapsto> \<lparr>f_halfedge = None\<rparr>),
       face_ctr := Suc (face_ctr m)\<rparr>"

definition del_node :: "node_handle \<Rightarrow> mesh \<Rightarrow> mesh" where
  "del_node n m = m\<lparr>nodes := (nodes m)(n := None)\<rparr>"

definition del_edge :: "edge_handle \<Rightarrow> mesh \<Rightarrow> mesh" where
  "del_edge e m = m\<lparr>hedges := (hedges m)(He e False := None, He e True := None)\<rparr>"

definition del_face :: "face_handle \<Rightarrow> mesh \<Rightarrow> mesh" where
  "del_face f m = m\<lparr>faces := (faces m)(f := None)\<rparr>"

lemmas reads = vh_def vn_def vf_def org_def par_def nxt_def prv_def fac_def nhe_def pos_def fhe_def

lemma w_origin_reads [simp]:
  "vh (w_origin h n m) = vh m"
  "vn (w_origin h n m) = vn m"
  "vf (w_origin h n m) = vf m"
  "par (w_origin h n m) = par m"
  "nxt (w_origin h n m) = nxt m"
  "prv (w_origin h n m) = prv m"
  "fac (w_origin h n m) = fac m"
  "nhe (w_origin h n m) = nhe m"
  "pos (w_origin h n m) = pos m"
  "fhe (w_origin h n m) = fhe m"
  "node_ctr (w_origin h n m) = node_ctr m"
  "edge_ctr (w_origin h n m) = edge_ctr m"
  "face_ctr (w_origin h n m) = face_ctr m"
  "org (w_origin h n m) k = (if k = h \<and> vh m h then n else org m k)"
  by (auto simp: w_origin_def upd_he_def reads fun_eq_iff)

lemma w_next_reads [simp]:
  "vh (w_next h x m) = vh m"
  "vn (w_next h x m) = vn m"
  "vf (w_next h x m) = vf m"
  "org (w_next h x m) = org m"
  "par (w_next h x m) = par m"
  "prv (w_next h x m) = prv m"
  "fac (w_next h x m) = fac m"
  "nhe (w_next h x m) = nhe m"
  "pos (w_next h x m) = pos m"
  "fhe (w_next h x m) = fhe m"
  "node_ctr (w_next h x m) = node_ctr m"
  "edge_ctr (w_next h x m) = edge_ctr m"
  "face_ctr (w_next h x m) = face_ctr m"
  "nxt (w_next h x m) k = (if k = h \<and> vh m h then x else nxt m k)"
  by (auto simp: w_next_def upd_he_def reads fun_eq_iff)

lemma w_prev_reads [simp]:
  "vh (w_prev h x m) = vh m"
  "vn (w_prev h x m) = vn m"
  "vf (w_prev h x m) = vf m"
  "org (w_prev h x m) = org m"
  "par (w_prev h x m) = par m"
  "nxt (w_prev h x m) = nxt m"
  "fac (w_prev h x m) = fac m"
  "nhe (w_prev h x m) = nhe m"
  "pos (w_prev h x m) = pos m"
  "fhe (w_prev h x m) = fhe m"
  "node_ctr (w_prev h x m) = node_ctr m"
  "edge_ctr (w_prev h x m) = edge_ctr m"
  "face_ctr (w_prev h x m) = face_ctr m"
  "prv (w_prev h x m) k = (if k = h \<and> vh m h then x else prv m k)"
  by (auto simp: w_prev_def upd_he_def reads fun_eq_iff)

lemma w_face_reads [simp]:
  "vh (w_face h f m) = vh m"
  "vn (w_face h f m) = vn m"
  "vf (w_face h f m) = vf m"
  "org (w_face h f m) = org m"
  "par (w_face h f m) = par m"
  "nxt (w_face h f m) = nxt m"
  "prv (w_face h f m) = prv m"
  "nhe (w_face h f m) = nhe m"
  "pos (w_face h f m) = pos m"
  "fhe (w_face h f m) = fhe m"
  "node_ctr (w_face h f m) = node_ctr m"
  "edge_ctr (w_face h f m) = edge_ctr m"
  "face_ctr (w_face h f m) = face_ctr m"
  "fac (w_face h f m) k = (if k = h \<and> vh m h then f else fac m k)"
  by (auto simp: w_face_def upd_he_def reads fun_eq_iff)

lemma w_nhe_reads [simp]:
  "vh (w_nhe n h m) = vh m"
  "vn (w_nhe n h m) = vn m"
  "vf (w_nhe n h m) = vf m"
  "org (w_nhe n h m) = org m"
  "par (w_nhe n h m) = par m"
  "nxt (w_nhe n h m) = nxt m"
  "prv (w_nhe n h m) = prv m"
  "fac (w_nhe n h m) = fac m"
  "pos (w_nhe n h m) = pos m"
  "fhe (w_nhe n h m) = fhe m"
  "node_ctr (w_nhe n h m) = node_ctr m"
  "edge_ctr (w_nhe n h m) = edge_ctr m"
  "face_ctr (w_nhe n h m) = face_ctr m"
  "nhe (w_nhe n h m) k = (if k = n \<and> vn m n then h else nhe m k)"
  by (auto simp: w_nhe_def upd_node_def reads fun_eq_iff)

lemma w_pos_reads [simp]:
  "vh (w_pos n p m) = vh m"
  "vn (w_pos n p m) = vn m"
  "vf (w_pos n p m) = vf m"
  "org (w_pos n p m) = org m"
  "par (w_pos n p m) = par m"
  "nxt (w_pos n p m) = nxt m"
  "prv (w_pos n p m) = prv m"
  "fac (w_pos n p m) = fac m"
  "nhe (w_pos n p m) = nhe m"
  "fhe (w_pos n p m) = fhe m"
  "node_ctr (w_pos n p m) = node_ctr m"
  "edge_ctr (w_pos n p m) = edge_ctr m"
  "face_ctr (w_pos n p m) = face_ctr m"
  "pos (w_pos n p m) k = (if k = n \<and> vn m n then p else pos m k)"
  by (auto simp: w_pos_def upd_node_def reads fun_eq_iff)

lemma w_fhe_reads [simp]:
  "vh (w_fhe f h m) = vh m"
  "vn (w_fhe f h m) = vn m"
  "vf (w_fhe f h m) = vf m"
  "org (w_fhe f h m) = org m"
  "par (w_fhe f h m) = par m"
  "nxt (w_fhe f h m) = nxt m"
  "prv (w_fhe f h m) = prv m"
  "fac (w_fhe f h m) = fac m"
  "nhe (w_fhe f h m) = nhe m"
  "pos (w_fhe f h m) = pos m"
  "node_ctr (w_fhe f h m) = node_ctr m"
  "edge_ctr (w_fhe f h m) = edge_ctr m"
  "face_ctr (w_fhe f h m) = face_ctr m"
  "fhe (w_fhe f h m) k = (if k = f \<and> vf m f then h else fhe m k)"
  by (auto simp: w_fhe_def upd_face_def reads fun_eq_iff)

lemma new_node_reads [simp]:
  "vh (new_node m) = vh m"
  "org (new_node m) = org m"
  "par (new_node m) = par m"
  "nxt (new_node m) = nxt m"
  "prv (new_node m) = prv m"
  "fac (new_node m) = fac m"
  "vf (new_node m) = vf m"
  "fhe (new_node m) = fhe m"
  "edge_ctr (new_node m) = edge_ctr m" "face_ctr (new_node m) = face_ctr m"
  "node_ctr (new_node m) = Suc (node_ctr m)"
  "vn (new_node m) k \<longleftrightarrow> k = node_ctr m \<or> vn m k"
  "nhe (new_node m) k = (if k = node_ctr m then None else nhe m k)"
  "pos (new_node m) k = (if k = node_ctr m then \<lparr>px = 0, py = 0\<rparr> else pos m k)"
  by (auto simp: new_node_def reads fun_eq_iff)

lemma new_face_reads [simp]:
  "vh (new_face m) = vh m"
  "org (new_face m) = org m"
  "par (new_face m) = par m"
  "nxt (new_face m) = nxt m"
  "prv (new_face m) = prv m"
  "fac (new_face m) = fac m"
  "vn (new_face m) = vn m"
  "nhe (new_face m) = nhe m"
  "pos (new_face m) = pos m"
  "edge_ctr (new_face m) = edge_ctr m" "node_ctr (new_face m) = node_ctr m"
  "face_ctr (new_face m) = Suc (face_ctr m)"
  "vf (new_face m) k \<longleftrightarrow> k = face_ctr m \<or> vf m k"
  "fhe (new_face m) k = (if k = face_ctr m then None else fhe m k)"
  by (auto simp: new_face_def reads fun_eq_iff)

lemma new_edge_reads [simp]:
  "vn (new_edge m) = vn m"
  "nhe (new_edge m) = nhe m"
  "pos (new_edge m) = pos m"
  "vf (new_edge m) = vf m"
  "fhe (new_edge m) = fhe m"
  "node_ctr (new_edge m) = node_ctr m" "face_ctr (new_edge m) = face_ctr m"
  "edge_ctr (new_edge m) = Suc (edge_ctr m)"
  "vh (new_edge m) k \<longleftrightarrow> edge_id k = edge_ctr m \<or> vh m k"
  "org (new_edge m) k = (if edge_id k = edge_ctr m then None else org m k)"
  "fac (new_edge m) k = (if edge_id k = edge_ctr m then None else fac m k)"
  "par (new_edge m) k = (if edge_id k = edge_ctr m then He (edge_id k) (\<not> second k) else par m k)"
  "nxt (new_edge m) k = (if edge_id k = edge_ctr m then He (edge_id k) (\<not> second k) else nxt m k)"
  "prv (new_edge m) k = (if edge_id k = edge_ctr m then He (edge_id k) (\<not> second k) else prv m k)"
  by (cases k; cases "second k"; auto simp: new_edge_def stub_def reads fun_eq_iff)+

lemma del_node_reads [simp]:
  "vh (del_node n m) = vh m"
  "org (del_node n m) = org m"
  "par (del_node n m) = par m"
  "nxt (del_node n m) = nxt m"
  "prv (del_node n m) = prv m"
  "fac (del_node n m) = fac m"
  "vf (del_node n m) = vf m"
  "fhe (del_node n m) = fhe m"
  "node_ctr (del_node n m) = node_ctr m"
  "edge_ctr (del_node n m) = edge_ctr m"
  "face_ctr (del_node n m) = face_ctr m"
  "vn (del_node n m) k \<longleftrightarrow> k \<noteq> n \<and> vn m k"
  "k \<noteq> n \<Longrightarrow> nhe (del_node n m) k = nhe m k"
  "k \<noteq> n \<Longrightarrow> pos (del_node n m) k = pos m k"
  by (auto simp: del_node_def reads fun_eq_iff)

lemma del_face_reads [simp]:
  "vh (del_face f m) = vh m"
  "org (del_face f m) = org m"
  "par (del_face f m) = par m"
  "nxt (del_face f m) = nxt m"
  "prv (del_face f m) = prv m"
  "fac (del_face f m) = fac m"
  "vn (del_face f m) = vn m"
  "nhe (del_face f m) = nhe m"
  "pos (del_face f m) = pos m"
  "node_ctr (del_face f m) = node_ctr m"
  "edge_ctr (del_face f m) = edge_ctr m"
  "face_ctr (del_face f m) = face_ctr m"
  "vf (del_face f m) k \<longleftrightarrow> k \<noteq> f \<and> vf m k"
  "k \<noteq> f \<Longrightarrow> fhe (del_face f m) k = fhe m k"
  by (auto simp: del_face_def reads fun_eq_iff)

lemma del_edge_reads [simp]:
  "vn (del_edge e m) = vn m"
  "nhe (del_edge e m) = nhe m"
  "pos (del_edge e m) = pos m"
  "vf (del_edge e m) = vf m"
  "fhe (del_edge e m) = fhe m"
  "node_ctr (del_edge e m) = node_ctr m"
  "edge_ctr (del_edge e m) = edge_ctr m"
  "face_ctr (del_edge e m) = face_ctr m"
  "vh (del_edge e m) k \<longleftrightarrow> edge_id k \<noteq> e \<and> vh m k"
  "edge_id k \<noteq> e \<Longrightarrow> org (del_edge e m) k = org m k"
  "edge_id k \<noteq> e \<Longrightarrow> par (del_edge e m) k = par m k"
  "edge_id k \<noteq> e \<Longrightarrow> nxt (del_edge e m) k = nxt m k"
  "edge_id k \<noteq> e \<Longrightarrow> prv (del_edge e m) k = prv m k"
  "edge_id k \<noteq> e \<Longrightarrow> fac (del_edge e m) k = fac m k"
  by (cases k; cases "second k"; auto simp: del_edge_def reads fun_eq_iff)+


lemma empty_mesh_reads [simp]:
  "vh empty_mesh h = False" "vn empty_mesh n = False" "vf empty_mesh f = False"
  "node_ctr empty_mesh = 0" "edge_ctr empty_mesh = 0" "face_ctr empty_mesh = 0"
  by (simp_all add: empty_mesh_def reads)

section \<open>The accessors in terms of reads and writes\<close>


lemma bnd_throw [simp]: "bnd (throw e) g m = Some (Inl e, m)"
  by (simp add: bnd_def throw_def)

lemma bnd_Inr: "f m = Some (Inr a, m1) \<Longrightarrow> bnd f g m = g a m1"
  by (simp add: bnd_def)

lemma bnd_Inl: "f m = Some (Inl e, m1) \<Longrightarrow> bnd f g m = Some (Inl e, m1)"
  by (simp add: bnd_def)

lemma bnd_eq_Inr:
  "bnd f g m = Some (Inr r, m') \<longleftrightarrow> (\<exists>a m1. f m = Some (Inr a, m1) \<and> g a m1 = Some (Inr r, m'))"
  by (auto simp: bnd_def split: option.splits sum.splits prod.splits)

lemma bnd_eq_Inl:
  "bnd f g m = Some (Inl e, m') \<longleftrightarrow>
     f m = Some (Inl e, m') \<or> (\<exists>a m1. f m = Some (Inr a, m1) \<and> g a m1 = Some (Inl e, m'))"
  by (auto simp: bnd_def split: option.splits sum.splits prod.splits)

lemma get_he_eq:
  "get_he h m = (if vh m h then Some (Inr (the (hedges m h)), m) else Some (Inl InvalidHandle, m))"
  by (auto simp: get_he_def vh_def split: option.splits)

lemma put_he_eq:
  "put_he h f m = (if vh m h then Some (Inr (), upd_he h f m) else Some (Inl InvalidHandle, m))"
  by (auto simp: put_he_def upd_he_def vh_def split: option.splits)

lemma get_node_eq:
  "get_node n m = (if vn m n then Some (Inr (the (nodes m n)), m) else Some (Inl InvalidHandle, m))"
  by (auto simp: get_node_def vn_def split: option.splits)

lemma put_node_eq:
  "put_node n f m = (if vn m n then Some (Inr (), upd_node n f m) else Some (Inl InvalidHandle, m))"
  by (auto simp: put_node_def upd_node_def vn_def split: option.splits)

lemma get_fc_eq:
  "get_fc f m = (if vf m f then Some (Inr (the (faces m f)), m) else Some (Inl InvalidHandle, m))"
  by (auto simp: get_fc_def vf_def split: option.splits)

lemma put_fc_eq:
  "put_fc f g m = (if vf m f then Some (Inr (), upd_face f g m) else Some (Inl InvalidHandle, m))"
  by (auto simp: put_fc_def upd_face_def vf_def split: option.splits)

lemma get_origin_eq:
  "get_origin h m = (if vh m h then Some (Inr (org m h), m) else Some (Inl InvalidHandle, m))"
  by (simp add: get_origin_def get_he_eq bnd_def org_def ret_def)

lemma get_pair_eq:
  "get_pair h m = (if vh m h then Some (Inr (par m h), m) else Some (Inl InvalidHandle, m))"
  by (simp add: get_pair_def get_he_eq bnd_def par_def ret_def)

lemma get_next_eq:
  "get_next h m = (if vh m h then Some (Inr (nxt m h), m) else Some (Inl InvalidHandle, m))"
  by (simp add: get_next_def get_he_eq bnd_def nxt_def ret_def)

lemma get_prev_eq:
  "get_prev h m = (if vh m h then Some (Inr (prv m h), m) else Some (Inl InvalidHandle, m))"
  by (simp add: get_prev_def get_he_eq bnd_def prv_def ret_def)

lemma get_face_eq:
  "get_face h m = (if vh m h then Some (Inr (fac m h), m) else Some (Inl InvalidHandle, m))"
  by (simp add: get_face_def get_he_eq bnd_def fac_def ret_def)

lemma is_boundary_eq:
  "is_boundary h m = (if vh m h then Some (Inr (fac m h = None), m) else Some (Inl InvalidHandle, m))"
  by (simp add: is_boundary_def get_he_eq bnd_def fac_def ret_def)

lemma edge_of_eq:
  "edge_of h m = (if vh m h then Some (Inr (edge_id h), m) else Some (Inl InvalidHandle, m))"
  by (simp add: edge_of_def get_he_eq bnd_def ret_def)

lemma he1_eq:
  "he1 e m = (if vh m (He e False) then Some (Inr (He e False), m) else Some (Inl InvalidHandle, m))"
  by (simp add: he1_def get_he_eq bnd_def ret_def)

lemma he2_eq:
  "he2 e m = (if vh m (He e True) then Some (Inr (He e True), m) else Some (Inl InvalidHandle, m))"
  by (simp add: he2_def get_he_eq bnd_def ret_def)

lemma set_origin_eq:
  "set_origin h n m = (if vh m h then Some (Inr (), w_origin h n m) else Some (Inl InvalidHandle, m))"
  by (simp add: set_origin_def put_he_eq w_origin_def)

lemma set_next_eq:
  "set_next h x m = (if vh m h then Some (Inr (), w_next h x m) else Some (Inl InvalidHandle, m))"
  by (simp add: set_next_def put_he_eq w_next_def)

lemma set_prev_eq:
  "set_prev h x m = (if vh m h then Some (Inr (), w_prev h x m) else Some (Inl InvalidHandle, m))"
  by (simp add: set_prev_def put_he_eq w_prev_def)

lemma set_face_eq:
  "set_face h f m = (if vh m h then Some (Inr (), w_face h f m) else Some (Inl InvalidHandle, m))"
  by (simp add: set_face_def put_he_eq w_face_def)

lemma halfedge_of_eq:
  "halfedge_of n m = (if vn m n then Some (Inr (nhe m n), m) else Some (Inl InvalidHandle, m))"
  by (simp add: halfedge_of_def get_node_eq bnd_def nhe_def ret_def)

lemma is_isolated_eq:
  "is_isolated n m = (if vn m n then Some (Inr (nhe m n = None), m) else Some (Inl InvalidHandle, m))"
  by (simp add: is_isolated_def get_node_eq bnd_def nhe_def ret_def)

lemma get_position_eq:
  "get_position n m = (if vn m n then Some (Inr (pos m n), m) else Some (Inl InvalidHandle, m))"
  by (simp add: get_position_def get_node_eq bnd_def pos_def ret_def)

lemma set_position_eq:
  "set_position n p m = (if vn m n then Some (Inr (), w_pos n p m) else Some (Inl InvalidHandle, m))"
  by (simp add: set_position_def put_node_eq w_pos_def)

lemma set_halfedge_eq:
  "set_halfedge n h m = (if vn m n then Some (Inr (), w_nhe n h m) else Some (Inl InvalidHandle, m))"
  by (simp add: set_halfedge_def put_node_eq w_nhe_def)

lemma deref_eq:
  "deref h m = (case h of None \<Rightarrow> Some (Inl InvalidHandle, m) | Some a \<Rightarrow> Some (Inr a, m))"
  by (simp add: deref_def throw_def ret_def split: option.splits)

lemma face_halfedge_eq:
  "face_halfedge f m = (if vf m f \<and> fhe m f \<noteq> None then Some (Inr (the (fhe m f)), m)
     else Some (Inl InvalidHandle, m))"
  by (auto simp: face_halfedge_def get_fc_eq bnd_def fhe_def deref_eq split: option.splits)

lemma face_set_halfedge_eq:
  "face_set_halfedge f h m = (if vf m f then Some (Inr (), w_fhe f (Some h) m)
     else Some (Inl InvalidHandle, m))"
  by (simp add: face_set_halfedge_def put_fc_eq w_fhe_def)

lemma get_new_node_eq: "get_new_node m = Some (Inr (node_ctr m), new_node m)"
  by (simp add: get_new_node_def new_node_def)

lemma get_new_edge_eq: "get_new_edge m = Some (Inr (edge_ctr m), new_edge m)"
  by (simp add: get_new_edge_def new_edge_def)

lemma get_new_face_eq: "get_new_face m = Some (Inr (face_ctr m), new_face m)"
  by (simp add: get_new_face_def new_face_def)

lemma delete_node_eq:
  "delete_node n m = (if vn m n then Some (Inr (), del_node n m) else Some (Inl InvalidHandle, m))"
  by (auto simp: delete_node_def del_node_def vn_def split: option.splits)

lemma delete_edge_eq:
  "delete_edge e m = (if vh m (He e False) \<and> vh m (He e True) then Some (Inr (), del_edge e m)
     else Some (Inl InvalidHandle, m))"
  by (auto simp: delete_edge_def del_edge_def vh_def)

lemma delete_face_eq:
  "delete_face f m = (if vf m f then Some (Inr (), del_face f m) else Some (Inl InvalidHandle, m))"
  by (auto simp: delete_face_def del_face_def vf_def split: option.splits)

lemmas exec = bnd_def ret_def throw_def deref_eq
  get_origin_eq get_pair_eq get_next_eq get_prev_eq get_face_eq is_boundary_eq edge_of_eq
  he1_eq he2_eq set_origin_eq set_next_eq set_prev_eq set_face_eq
  halfedge_of_eq is_isolated_eq get_position_eq set_position_eq set_halfedge_eq
  face_halfedge_eq face_set_halfedge_eq get_new_node_eq get_new_edge_eq get_new_face_eq
  delete_node_eq delete_edge_eq delete_face_eq



section \<open>Walking around a node\<close>

definition sig :: "mesh \<Rightarrow> halfedge_handle \<Rightarrow> halfedge_handle" where
  "sig m h = par m (nxt m h)"

fun path :: "('a \<Rightarrow> 'a) \<Rightarrow> 'a \<Rightarrow> 'a list \<Rightarrow> 'a \<Rightarrow> bool" where
  "path f x [] y \<longleftrightarrow> x = y"
| "path f x (z # zs) y \<longleftrightarrow> z = x \<and> path f (f x) zs y"

lemma path_append: "path f x (as @ bs) y \<longleftrightarrow> (\<exists>z. path f x as z \<and> path f z bs y)"
  by (induction as arbitrary: x) auto

lemma path_snoc: "path f x (zs @ [z]) y \<longleftrightarrow> path f x zs z \<and> f z = y"
  by (auto simp: path_append)

lemma path_cong: "(\<And>z. z \<in> set zs \<Longrightarrow> f z = g z) \<Longrightarrow> path f x zs y = path g x zs y"
  by (induction zs arbitrary: x) auto

lemma path_funpow: "path f x zs y \<Longrightarrow> y = (f ^^ length zs) x \<and> (\<forall>j<length zs. zs ! j = (f ^^ j) x)"
proof (induction zs arbitrary: x)
  case Nil
  then show ?case by simp
next
  case (Cons z zs)
  then have "y = (f ^^ length zs) (f x)" and nth: "\<forall>j<length zs. zs ! j = (f ^^ j) (f x)" and "z = x"
    by auto
  then show ?case
    by (auto simp: funpow_swap1 nth_Cons split: nat.splits)
qed

lemma funpow_path: "path f x (map (\<lambda>j. (f ^^ j) x) [0..<k]) ((f ^^ k) x)"
proof (induction k arbitrary: x)
  case 0
  then show ?case by simp
next
  case (Suc k)
  have "map (\<lambda>j. (f ^^ j) x) [0..<Suc k] = x # map (\<lambda>j. (f ^^ j) (f x)) [0..<k]"
    by (simp add: upt_conv_Cons funpow_swap1 map_Suc_upt[symmetric] del: upt_Suc)
  then show ?case using Suc[of "f x"] by (simp add: funpow_swap1 del: upt_Suc)
qed

definition inner :: "mesh \<Rightarrow> halfedge_handle \<Rightarrow> bool" where
  "inner m a \<longleftrightarrow> vh m a \<and> fac m a \<noteq> None \<and> vh m (nxt m a)"

lemma ffih_boundary: "vh m i \<Longrightarrow> fac m i = None \<Longrightarrow> ffih_loop s i m = Some (Inr i, m)"
  by (subst ffih_loop.simps) (simp add: exec)

lemma ffih_step: "inner m i \<Longrightarrow> sig m i \<noteq> s \<Longrightarrow> ffih_loop s i m = ffih_loop s (sig m i) m"
  by (subst ffih_loop.simps) (auto simp: exec inner_def sig_def)

lemma ffih_stop: "inner m i \<Longrightarrow> sig m i = s \<Longrightarrow> ffih_loop s i m = Some (Inl TopologyError, m)"
  by (subst ffih_loop.simps) (auto simp: exec inner_def sig_def)

lemma ffih_invalid: "\<not> vh m i \<Longrightarrow> ffih_loop s i m = Some (Inl InvalidHandle, m)"
  by (subst ffih_loop.simps) (auto simp: exec)

lemma ffih_invalid_next: "vh m i \<Longrightarrow> fac m i \<noteq> None \<Longrightarrow> \<not> vh m (nxt m i) \<Longrightarrow>
    ffih_loop s i m = Some (Inl InvalidHandle, m)"
  by (subst ffih_loop.simps) (auto simp: exec)

lemma ffih_found:
  "path (sig m) i A g \<Longrightarrow> \<forall>a\<in>set A. inner m a \<and> sig m a \<noteq> s \<Longrightarrow> vh m g \<Longrightarrow> fac m g = None
     \<Longrightarrow> ffih_loop s i m = Some (Inr g, m)"
  by (induction A arbitrary: i) (auto simp: ffih_boundary ffih_step)

lemma ffih_turn:
  "path (sig m) i A a \<Longrightarrow> \<forall>x\<in>set A. inner m x \<and> sig m x \<noteq> s \<Longrightarrow> inner m a \<Longrightarrow> sig m a = s
     \<Longrightarrow> ffih_loop s i m = Some (Inl TopologyError, m)"
  by (induction A arbitrary: i) (auto simp: ffih_stop ffih_step)

lemma ffih_cases:
  assumes "ffih_loop s i m = Some y"
  shows "snd y = m \<and>
    (case fst y of
       Inr g \<Rightarrow> vh m g \<and> fac m g = None \<and>
          (\<exists>A. path (sig m) i A g \<and> (\<forall>a\<in>set A. inner m a \<and> sig m a \<noteq> s))
     | Inl e \<Rightarrow> (e = TopologyError \<longrightarrow>
          (\<exists>A a. path (sig m) i A a \<and> (\<forall>x\<in>set A. inner m x \<and> sig m x \<noteq> s) \<and>
                  inner m a \<and> sig m a = s)))"
proof (rule ffih_loop.raw_induct[where P = "\<lambda>s i m y. snd y = m \<and>
    (case fst y of
       Inr g \<Rightarrow> vh m g \<and> fac m g = None \<and>
          (\<exists>A. path (sig m) i A g \<and> (\<forall>a\<in>set A. inner m a \<and> sig m a \<noteq> s))
     | Inl e \<Rightarrow> (e = TopologyError \<longrightarrow>
          (\<exists>A a. path (sig m) i A a \<and> (\<forall>x\<in>set A. inner m x \<and> sig m x \<noteq> s) \<and>
                  inner m a \<and> sig m a = s)))", OF _ assms])
  fix loop he_stop he_iter m y
  assume IH: "\<And>s i m y. loop s i m = Some y \<Longrightarrow> snd y = m \<and>
    (case fst y of
       Inr g \<Rightarrow> vh m g \<and> fac m g = None \<and>
          (\<exists>A. path (sig m) i A g \<and> (\<forall>a\<in>set A. inner m a \<and> sig m a \<noteq> s))
     | Inl e \<Rightarrow> (e = TopologyError \<longrightarrow>
          (\<exists>A a. path (sig m) i A a \<and> (\<forall>x\<in>set A. inner m x \<and> sig m x \<noteq> s) \<and>
                  inner m a \<and> sig m a = s)))"
    and step: "bnd (is_boundary he_iter)
          (\<lambda>b. if b then ret he_iter
               else bnd (get_next he_iter)
                     (\<lambda>nx. bnd (get_pair nx)
                            (\<lambda>it. if it \<noteq> he_stop then loop he_stop it
                                  else throw TopologyError))) m = Some y"
  show "snd y = m \<and>
    (case fst y of
       Inr g \<Rightarrow> vh m g \<and> fac m g = None \<and>
          (\<exists>A. path (sig m) he_iter A g \<and> (\<forall>a\<in>set A. inner m a \<and> sig m a \<noteq> he_stop))
     | Inl e \<Rightarrow> (e = TopologyError \<longrightarrow>
          (\<exists>A a. path (sig m) he_iter A a \<and> (\<forall>x\<in>set A. inner m x \<and> sig m x \<noteq> he_stop) \<and>
                  inner m a \<and> sig m a = he_stop)))"
  proof (cases "vh m he_iter \<and> fac m he_iter \<noteq> None \<and> vh m (nxt m he_iter)")
    case False
    then show ?thesis using step
      by (auto simp: exec split: if_splits intro!: exI[of _ "[]"])
  next
    case True
    then have inn: "inner m he_iter" by (simp add: inner_def)
    show ?thesis
    proof (cases "sig m he_iter = he_stop")
      case True
      with inn step have "y = (Inl TopologyError, m)"
        by (auto simp: exec inner_def sig_def)
      moreover have "\<exists>A a. path (sig m) he_iter A a \<and>
          (\<forall>x\<in>set A. inner m x \<and> sig m x \<noteq> he_stop) \<and> inner m a \<and> sig m a = he_stop"
        using inn True by (intro exI[of _ "[]"] exI[of _ he_iter]) simp
      ultimately show ?thesis by simp
    next
      case False
      with inn step have run: "loop he_stop (sig m he_iter) m = Some y"
        by (auto simp: exec inner_def sig_def)
      from IH[OF run] inn False show ?thesis
        apply (cases "fst y")
         apply (auto)
         apply (rule_tac x="he_iter # A" in exI, auto)[1]
        apply (rule_tac x="he_iter # A" in exI, auto)[1]
        done
    qed
  qed
qed



section \<open>Which exceptions an operation can throw\<close>

definition throws_only :: "'a M \<Rightarrow> error set \<Rightarrow> bool" where
  "throws_only f E \<longleftrightarrow> (\<forall>m e m'. f m = Some (Inl e, m') \<longrightarrow> e \<in> E)"

lemma throws_ret [intro!, simp]: "throws_only (ret a) E"
  by (simp add: throws_only_def ret_def)

lemma throws_throw [simp]: "throws_only (throw e) E \<longleftrightarrow> e \<in> E"
  by (auto simp: throws_only_def throw_def)

lemma throws_bnd [intro!]:
  "throws_only f E \<Longrightarrow> (\<And>a m m1. f m = Some (Inr a, m1) \<Longrightarrow> throws_only (g a) E)
     \<Longrightarrow> throws_only (bnd f g) E"
  unfolding throws_only_def bnd_eq_Inl by blast

lemma throws_if [intro!]:
  "(c \<Longrightarrow> throws_only f E) \<Longrightarrow> (\<not> c \<Longrightarrow> throws_only g E) \<Longrightarrow> throws_only (if c then f else g) E"
  by simp

lemma throws_get_he [intro!]: "InvalidHandle \<in> E \<Longrightarrow> throws_only (get_he h) E"
  by (auto simp: throws_only_def get_he_def split: option.splits)

lemma throws_put_he [intro!]: "InvalidHandle \<in> E \<Longrightarrow> throws_only (put_he h f) E"
  by (auto simp: throws_only_def put_he_def split: option.splits)

lemma throws_getters [intro!]:
  assumes "InvalidHandle \<in> E"
  shows "throws_only (get_origin h) E" "throws_only (get_pair h) E" "throws_only (get_next h) E"
    "throws_only (get_prev h) E" "throws_only (get_face h) E" "throws_only (is_boundary h) E"
    "throws_only (set_next h x) E" "throws_only (set_prev h x) E"
    "throws_only (set_origin h n) E" "throws_only (set_face h f) E"
  using assms
  unfolding get_origin_def get_pair_def get_next_def get_prev_def get_face_def is_boundary_def
    set_next_def set_prev_def set_origin_def set_face_def
  by blast+

lemma throws_ffih_loop [intro!]:
  assumes "InvalidHandle \<in> E" "TopologyError \<in> E"
  shows "throws_only (ffih_loop s i) E"
proof -
  have "\<forall>e m'. y = (Inl e, m') \<longrightarrow> e \<in> E" if run: "ffih_loop s i m = Some y" for m y
  proof (rule ffih_loop.raw_induct[where P = "\<lambda>s i m y. \<forall>e m'. y = (Inl e, m') \<longrightarrow> e \<in> E", OF _ run])
    fix loop he_stop he_iter m y
    assume IH: "\<And>he_stop he_iter m y. loop he_stop he_iter m = Some y \<Longrightarrow> \<forall>e m'. y = (Inl e, m') \<longrightarrow> e \<in> E"
      and step: "bnd (is_boundary he_iter)
          (\<lambda>b. if b then ret he_iter
               else bnd (get_next he_iter)
                     (\<lambda>nx. bnd (get_pair nx)
                            (\<lambda>it. if it \<noteq> he_stop then loop he_stop it
                                  else throw TopologyError))) m = Some y"
    have "throws_only (bnd (is_boundary he_iter)
          (\<lambda>b. if b then ret he_iter
               else bnd (get_next he_iter)
                     (\<lambda>nx. bnd (get_pair nx)
                            (\<lambda>it. if it \<noteq> he_stop then loop he_stop it
                                  else throw TopologyError)))) E"
      using assms IH by (intro throws_bnd throws_if throws_getters throws_ret) (auto simp: throws_only_def throw_def)
    with step show "\<forall>e m'. y = (Inl e, m') \<longrightarrow> e \<in> E" unfolding throws_only_def by blast
  qed
  then show ?thesis unfolding throws_only_def by blast
qed

lemma throws_make_adjacent [intro!]:
  assumes "InvalidHandle \<in> E" "TopologyError \<in> E" "AssertionFailed \<in> E"
  shows "throws_only (make_adjacent a b) E"
  unfolding make_adjacent_def find_free_incident_halfedge_h_def
  using assms by (intro throws_bnd throws_if throws_getters throws_ffih_loop throws_ret) simp_all

lemma throws_only_D: "throws_only f E \<Longrightarrow> f m = Some (Inl e, m') \<Longrightarrow> e \<in> E"
  unfolding throws_only_def by blast

lemma throws_and_also [intro!]:
  "throws_only a E \<Longrightarrow> throws_only b E \<Longrightarrow> throws_only (and_also a b) E"
  unfolding and_also_def by (intro throws_bnd throws_if throws_ret)

lemma throws_chained [intro!]: "InvalidHandle \<in> E \<Longrightarrow> throws_only (chained a b) E"
  unfolding chained_def by (intro throws_bnd throws_getters throws_ret)

lemma throws_store [intro!]:
  assumes "InvalidHandle \<in> E"
  shows "throws_only get_new_face E" "throws_only (face_set_halfedge f h) E"
  using assms
  by (auto simp: throws_only_def get_new_face_def face_set_halfedge_def put_fc_def split: option.splits)


lemma and_also_eq_Inr:
  "and_also a b m = Some (Inr r, m') \<longleftrightarrow>
     a m = Some (Inr False, m') \<and> \<not> r \<or> (\<exists>m1. a m = Some (Inr True, m1) \<and> b m1 = Some (Inr r, m'))"
  by (auto simp: and_also_def bnd_eq_Inr ret_def)

lemma and_also_eq_Inl:
  "and_also a b m = Some (Inl e, m') \<longleftrightarrow>
     a m = Some (Inl e, m') \<or> (\<exists>m1. a m = Some (Inr True, m1) \<and> b m1 = Some (Inl e, m'))"
  by (auto simp: and_also_def bnd_eq_Inl ret_def)

lemma make_adjacent_True: "make_adjacent a b m = Some (Inr r, m') \<Longrightarrow> r"
  unfolding make_adjacent_def
  by (auto simp: bnd_eq_Inr ret_def split: if_splits)

lemma adjacent3_True:
  "and_also (make_adjacent h1 h2) (and_also (make_adjacent h2 h3) (make_adjacent h3 h1)) m
     = Some (Inr r, m') \<Longrightarrow> r"
  by (auto simp: and_also_eq_Inr dest: make_adjacent_True)

lemma throws_add_face:
  "throws_only (add_face h1 h2 h3)
     {TopologyError, AssertionFailed, InvalidHandle, FaceError NotFree, FaceError NotChain}"
  unfolding add_face_def
  by (intro throws_bnd throws_if throws_and_also throws_getters throws_make_adjacent
        throws_chained throws_store throws_ret)
     (auto dest: adjacent3_True)

section \<open>Example meshes\<close>

text \<open>
  Meshes built with the public operations from the empty mesh: a single edge, the
  triangle of scenario S1, and that triangle with one more edge leaving its first node.
\<close>

definition pt :: "real \<Rightarrow> real \<Rightarrow> point" where
  "pt a b = \<lparr>px = a, py = b\<rparr>"

definition after :: "'a M \<Rightarrow> mesh" where
  "after f = snd (the (f empty_mesh))"

definition build_edge :: "halfedge_handle M" where
  "build_edge = bnd (add_node (pt 0 0)) (\<lambda>a. bnd (add_node (pt 1 0)) (\<lambda>b. add_edge a b))"

definition build_triangle :: "face_handle M" where
  "build_triangle =
     bnd (add_node (pt 0 0)) (\<lambda>a. bnd (add_node (pt 1 0)) (\<lambda>b. bnd (add_node (pt 0 1)) (\<lambda>c.
     bnd (add_edge a b) (\<lambda>h1. bnd (add_edge b c) (\<lambda>h2. bnd (add_edge c a) (\<lambda>h3.
     add_face h1 h2 h3))))))"

definition build_wedge :: "halfedge_handle M" where
  "build_wedge = bnd build_triangle (\<lambda>_. bnd (add_node (pt 5 5)) (\<lambda>x. add_edge 0 x))"

lemmas run = exec ffih_boundary ffih_step ffih_stop inner_def sig_def
  add_node_def add_edge_def add_face_def attach_halfedge_to_node_def make_adjacent_def
  find_free_incident_halfedge_n_def find_free_incident_halfedge_h_def and_also_def chained_def
  remove_face_def remove_edge_def detach_edge_def
  after_def build_edge_def build_triangle_def build_wedge_def pt_def

section \<open>Rejected calls of \<^verbatim>\<open>add_face\<close>\<close>

text \<open>
  C3.  \<^verbatim>\<open>add_face\<close> on three live halfedges: when one of them is not a boundary halfedge
  the call throws \<^verbatim>\<open>add_face_error\<close> for halfedges that are not free; when all are boundary
  halfedges and the chain condition on the origins fails it throws \<^verbatim>\<open>add_face_error\<close> for
  halfedges that do not form a chain.  In both cases the mesh after the call is the mesh
  before it: no face is created and no field of a halfedge is written.
\<close>

theorem add_face_rejects:
  assumes "vh m h1" "vh m h2" "vh m h3" "vh m (par m h1)" "vh m (par m h2)" "vh m (par m h3)"
  shows "(\<not> (fac m h1 = None \<and> fac m h2 = None \<and> fac m h3 = None) \<longrightarrow>
            add_face h1 h2 h3 m = Some (Inl (FaceError NotFree), m)) \<and>
         (fac m h1 = None \<and> fac m h2 = None \<and> fac m h3 = None \<and>
          \<not> (org m (par m h1) = org m h2 \<and> org m (par m h2) = org m h3 \<and>
             org m (par m h3) = org m h1) \<longrightarrow>
            add_face h1 h2 h3 m = Some (Inl (FaceError NotChain), m))"
  using assms by (simp add: add_face_def and_also_def chained_def exec)

lemma after_eq: "f empty_mesh = Some (r, M) \<Longrightarrow> after f = M"
  by (simp add: after_def)

lemma triangle_facts:
  "\<exists>M. build_triangle empty_mesh = Some (Inr 0, M) \<and>
      vh M (He 0 True) \<and> vh M (He 1 True) \<and> vh M (He 2 True) \<and>
      vh M (He 0 False) \<and> vh M (He 1 False) \<and> vh M (He 2 False) \<and>
      par M (He 0 True) = He 0 False \<and> par M (He 1 True) = He 1 False \<and> par M (He 2 True) = He 2 False \<and>
      par M (He 2 False) = He 2 True \<and>
      fac M (He 0 True) = None \<and> fac M (He 1 True) = None \<and> fac M (He 2 True) = None \<and>
      fac M (He 2 False) = Some 0 \<and>
      org M (He 0 False) = Some 0 \<and> org M (He 1 True) = Some 2"
  by (simp add: run)

theorem add_face_rejects_witness:
  "add_face (He 0 True) (He 1 True) (He 2 False) (after build_triangle)
     = Some (Inl (FaceError NotFree), after build_triangle) \<and>
   add_face (He 0 True) (He 1 True) (He 2 True) (after build_triangle)
     = Some (Inl (FaceError NotChain), after build_triangle)"
proof -
  from triangle_facts obtain T where T: "build_triangle empty_mesh = Some (Inr 0, T)"
      "vh T (He 0 True)" "vh T (He 1 True)" "vh T (He 2 True)"
      "vh T (He 0 False)" "vh T (He 1 False)" "vh T (He 2 False)"
      "par T (He 0 True) = He 0 False" "par T (He 1 True) = He 1 False" "par T (He 2 True) = He 2 False"
      "par T (He 2 False) = He 2 True"
      "fac T (He 0 True) = None" "fac T (He 1 True) = None" "fac T (He 2 True) = None"
      "fac T (He 2 False) = Some 0"
      "org T (He 0 False) = Some 0" "org T (He 1 True) = Some 2"
    by blast
  have eq: "after build_triangle = T"
    using T(1) by (simp add: after_eq)
  show ?thesis
    unfolding eq
    using T(2-) add_face_rejects [of T "He 0 True" "He 1 True" "He 2 False"]
      add_face_rejects [of T "He 0 True" "He 1 True" "He 2 True"]
    by auto
qed

section \<open>\<^verbatim>\<open>make_adjacent\<close> never returns false\<close>

text \<open>
  C10.  When \<^verbatim>\<open>make_adjacent\<close> returns, it returns true.  Hence \<^verbatim>\<open>add_face\<close> never throws
  the \<^verbatim>\<open>add_face_error\<close> of the non-manifold case, and when one of its three calls of
  \<^verbatim>\<open>make_adjacent\<close> throws (as \<^verbatim>\<open>find_free_incident_halfedge\<close> does with
  \<^verbatim>\<open>bad_topology_error\<close>), \<^verbatim>\<open>add_face\<close> on boundary halfedges that form a chain throws that
  same exception.
\<close>

theorem make_adjacent_never_false:
  "(make_adjacent a b m = Some (Inr r, m') \<longrightarrow> r) \<and>
   add_face h1 h2 h3 m \<noteq> Some (Inl (FaceError NonManifold), m'') \<and>
   (vh m h1 \<and> vh m h2 \<and> vh m h3 \<and> vh m (par m h1) \<and> vh m (par m h2) \<and> vh m (par m h3) \<and>
    fac m h1 = None \<and> fac m h2 = None \<and> fac m h3 = None \<and>
    org m (par m h1) = org m h2 \<and> org m (par m h2) = org m h3 \<and> org m (par m h3) = org m h1 \<and>
    (make_adjacent h1 h2 m = Some (Inl e, m3) \<or>
     (\<exists>m1. make_adjacent h1 h2 m = Some (Inr True, m1) \<and>
        (make_adjacent h2 h3 m1 = Some (Inl e, m3) \<or>
         (\<exists>m2. make_adjacent h2 h3 m1 = Some (Inr True, m2) \<and>
                make_adjacent h3 h1 m2 = Some (Inl e, m3)))))
    \<longrightarrow> add_face h1 h2 h3 m = Some (Inl e, m3))"
proof (intro conjI impI)
  show "r" if "make_adjacent a b m = Some (Inr r, m')"
    using that by (rule make_adjacent_True)
  show "add_face h1 h2 h3 m \<noteq> Some (Inl (FaceError NonManifold), m'')"
    using throws_add_face[of h1 h2 h3] by (auto dest: throws_only_D)
next
  assume a: "vh m h1 \<and> vh m h2 \<and> vh m h3 \<and> vh m (par m h1) \<and> vh m (par m h2) \<and> vh m (par m h3) \<and>
    fac m h1 = None \<and> fac m h2 = None \<and> fac m h3 = None \<and>
    org m (par m h1) = org m h2 \<and> org m (par m h2) = org m h3 \<and> org m (par m h3) = org m h1 \<and>
    (make_adjacent h1 h2 m = Some (Inl e, m3) \<or>
     (\<exists>m1. make_adjacent h1 h2 m = Some (Inr True, m1) \<and>
        (make_adjacent h2 h3 m1 = Some (Inl e, m3) \<or>
         (\<exists>m2. make_adjacent h2 h3 m1 = Some (Inr True, m2) \<and>
                make_adjacent h3 h1 m2 = Some (Inl e, m3)))))"
  then have "and_also (make_adjacent h1 h2) (and_also (make_adjacent h2 h3) (make_adjacent h3 h1)) m
      = Some (Inl e, m3)"
    unfolding and_also_eq_Inl by blast
  then have "bnd (and_also (make_adjacent h1 h2)
        (and_also (make_adjacent h2 h3) (make_adjacent h3 h1))) k m = Some (Inl e, m3)" for k :: "bool \<Rightarrow> face_handle M"
    by (rule bnd_Inl)
  with a show "add_face h1 h2 h3 m = Some (Inl e, m3)"
    by (simp add: add_face_def and_also_def chained_def exec)
qed

lemma wedge_facts:
  "\<exists>M. build_wedge empty_mesh = Some (Inr (He 3 False), M) \<and>
      make_adjacent (He 0 True) (He 2 True) M = Some (Inl TopologyError, M) \<and>
      vh M (He 0 True) \<and> vh M (He 2 True) \<and> vh M (He 1 True) \<and>
      vh M (He 0 False) \<and> vh M (He 2 False) \<and> vh M (He 1 False) \<and>
      par M (He 0 True) = He 0 False \<and> par M (He 2 True) = He 2 False \<and> par M (He 1 True) = He 1 False \<and>
      fac M (He 0 True) = None \<and> fac M (He 2 True) = None \<and> fac M (He 1 True) = None \<and>
      org M (He 0 False) = Some 0 \<and> org M (He 2 True) = Some 0 \<and>
      org M (He 2 False) = Some 2 \<and> org M (He 1 True) = Some 2 \<and>
      org M (He 1 False) = Some 1 \<and> org M (He 0 True) = Some 1"
  by (simp add: run)

lemma edge_facts:
  "\<exists>M. build_edge empty_mesh = Some (Inr (He 0 False), M) \<and>
      make_adjacent (He 0 False) (He 0 True) M = Some (Inr True, M)"
  by (simp add: run)

theorem make_adjacent_never_false_witness:
  "make_adjacent (He 0 False) (He 0 True) (after build_edge) = Some (Inr True, after build_edge) \<and>
   make_adjacent (He 0 True) (He 2 True) (after build_wedge) = Some (Inl TopologyError, after build_wedge) \<and>
   add_face (He 0 True) (He 2 True) (He 1 True) (after build_wedge)
     = Some (Inl TopologyError, after build_wedge)"
proof -
  from edge_facts obtain E where E: "build_edge empty_mesh = Some (Inr (He 0 False), E)"
    "make_adjacent (He 0 False) (He 0 True) E = Some (Inr True, E)"
    by blast
  from wedge_facts obtain W where W: "build_wedge empty_mesh = Some (Inr (He 3 False), W)"
      "make_adjacent (He 0 True) (He 2 True) W = Some (Inl TopologyError, W)"
      "vh W (He 0 True)" "vh W (He 2 True)" "vh W (He 1 True)"
      "vh W (He 0 False)" "vh W (He 2 False)" "vh W (He 1 False)"
      "par W (He 0 True) = He 0 False" "par W (He 2 True) = He 2 False" "par W (He 1 True) = He 1 False"
      "fac W (He 0 True) = None" "fac W (He 2 True) = None" "fac W (He 1 True) = None"
      "org W (He 0 False) = Some 0" "org W (He 2 True) = Some 0"
      "org W (He 2 False) = Some 2" "org W (He 1 True) = Some 2"
      "org W (He 1 False) = Some 1" "org W (He 0 True) = Some 1"
    by blast
  have eq: "after build_edge = E" "after build_wedge = W"
    using E(1) W(1) by (simp_all add: after_eq)
  show ?thesis
    unfolding eq
    using E(2) W(2-)
      make_adjacent_never_false [of "He 0 False" "He 0 True" E True E
        "He 0 True" "He 2 True" "He 1 True" E TopologyError E]
      make_adjacent_never_false [of "He 0 True" "He 2 True" W True W
        "He 0 True" "He 2 True" "He 1 True" W TopologyError W]
    by simp
qed


section \<open>The free incident halfedge of a node\<close>

lemma sig_funpow_period:
  assumes "(f ^^ j) s = s" shows "(f ^^ (j + i)) s = (f ^^ i) s"
  using assms by (simp add: funpow_add add.commute[of j i])

lemma find_free_n_eq:
  "vn m n \<Longrightarrow> nhe m n = Some h0 \<Longrightarrow> vh m h0 \<Longrightarrow>
     find_free_incident_halfedge_n n m = ffih_loop (par m h0) (par m h0) m"
  by (simp add: find_free_incident_halfedge_n_def exec)

text \<open>
  C5.  For a node \<open>n\<close> that is not isolated, let \<open>s\<close> be the pair of the halfedge of \<open>n\<close>
  and consider \<open>s\<close>, \<open>next.pair\<close> of \<open>s\<close>, and so on.  If the \<open>k\<close>-th halfedge of this
  sequence is the first one with a null face, \<^verbatim>\<open>find_free_incident_halfedge(n)\<close> returns
  it; if the sequence comes back to \<open>s\<close> and no halfedge before that has a null face, the
  call throws \<^verbatim>\<open>bad_topology_error\<close>.  Conversely a returned halfedge is the first of the
  sequence with a null face, and \<^verbatim>\<open>bad_topology_error\<close> is thrown only after a full turn.
  The mesh is not changed.
\<close>

theorem find_free_incident_halfedge_walk:
  assumes "vn m n" "nhe m n = Some h0" "vh m h0"
  shows "((\<forall>j\<le>k. vh m ((sig m ^^ j) (par m h0))) \<and>
          (\<forall>j<k. vh m (nxt m ((sig m ^^ j) (par m h0)))) \<and>
          fac m ((sig m ^^ k) (par m h0)) = None \<and>
          (\<forall>j<k. fac m ((sig m ^^ j) (par m h0)) \<noteq> None)
          \<longrightarrow> find_free_incident_halfedge_n n m = Some (Inr ((sig m ^^ k) (par m h0)), m)) \<and>
         (0 < k \<and> (sig m ^^ k) (par m h0) = par m h0 \<and>
          (\<forall>j<k. inner m ((sig m ^^ j) (par m h0)))
          \<longrightarrow> find_free_incident_halfedge_n n m = Some (Inl TopologyError, m)) \<and>
         (find_free_incident_halfedge_n n m = Some (Inr g, m')
          \<longrightarrow> m' = m \<and> (\<exists>i. g = (sig m ^^ i) (par m h0) \<and> fac m g = None \<and>
                  (\<forall>j<i. fac m ((sig m ^^ j) (par m h0)) \<noteq> None))) \<and>
         (find_free_incident_halfedge_n n m = Some (Inl TopologyError, m')
          \<longrightarrow> m' = m \<and> (\<exists>i>0. (sig m ^^ i) (par m h0) = par m h0 \<and>
                  (\<forall>j<i. fac m ((sig m ^^ j) (par m h0)) \<noteq> None)))"
proof (intro conjI impI)
  let ?s = "par m h0"
  let ?f = "sig m"
  note eq = find_free_n_eq[OF assms]
  {
    assume a: "(\<forall>j\<le>k. vh m ((?f ^^ j) ?s)) \<and> (\<forall>j<k. vh m (nxt m ((?f ^^ j) ?s))) \<and>
          fac m ((?f ^^ k) ?s) = None \<and> (\<forall>j<k. fac m ((?f ^^ j) ?s) \<noteq> None)"
    have noret: "(?f ^^ Suc j) ?s \<noteq> ?s" if "j < k" for j
    proof
      assume r: "(?f ^^ Suc j) ?s = ?s"
      have "(?f ^^ (Suc j + (k - Suc j))) ?s = (?f ^^ (k - Suc j)) ?s"
        using r by (rule sig_funpow_period)
      moreover have "Suc j + (k - Suc j) = k" using that by simp
      ultimately have "fac m ((?f ^^ (k - Suc j)) ?s) = None" using a by simp
      moreover have "k - Suc j < k" using that by simp
      ultimately show False using a by blast
    qed
    have "ffih_loop ?s ?s m = Some (Inr ((?f ^^ k) ?s), m)"
    proof (rule ffih_found[OF funpow_path])
      show "\<forall>a\<in>set (map (\<lambda>j. (?f ^^ j) ?s) [0..<k]). inner m a \<and> ?f a \<noteq> ?s"
        using a noret by (auto simp: inner_def)
    qed (use a in auto)
    then show "find_free_incident_halfedge_n n m = Some (Inr ((?f ^^ k) ?s), m)"
      by (simp add: eq)
  }
  {
    assume b: "0 < k \<and> (?f ^^ k) ?s = ?s \<and> (\<forall>j<k. inner m ((?f ^^ j) ?s))"
    define k' where "k' = (LEAST i. 0 < i \<and> (?f ^^ i) ?s = ?s)"
    have k': "0 < k' \<and> (?f ^^ k') ?s = ?s"
      unfolding k'_def by (rule LeastI[of "\<lambda>i. 0 < i \<and> (?f ^^ i) ?s = ?s" k]) (use b in simp)
    have least: "\<not> (0 < i \<and> (?f ^^ i) ?s = ?s)" if "i < k'" for i
      using not_less_Least[of i "\<lambda>i. 0 < i \<and> (?f ^^ i) ?s = ?s"] that unfolding k'_def by blast
    have le: "k' \<le> k"
      unfolding k'_def by (rule Least_le) (use b in simp)
    obtain q where q: "k' = Suc q" using k' by (cases k') auto
    have "ffih_loop ?s ?s m = Some (Inl TopologyError, m)"
    proof (rule ffih_turn[OF funpow_path[of ?f ?s q]])
      show "\<forall>x\<in>set (map (\<lambda>j. (?f ^^ j) ?s) [0..<q]). inner m x \<and> ?f x \<noteq> ?s"
      proof
        fix x assume "x \<in> set (map (\<lambda>j. (?f ^^ j) ?s) [0..<q])"
        then obtain j where j: "j < q" "x = (?f ^^ j) ?s" by auto
        have "inner m x" using j b le q by simp
        moreover have "?f x \<noteq> ?s" using least[of "Suc j"] j q by simp
        ultimately show "inner m x \<and> ?f x \<noteq> ?s" ..
      qed
      show "inner m ((?f ^^ q) ?s)" using b le q by simp
      show "?f ((?f ^^ q) ?s) = ?s" using k' q by simp
    qed
    then show "find_free_incident_halfedge_n n m = Some (Inl TopologyError, m)"
      by (simp add: eq)
  }
  {
    assume c: "find_free_incident_halfedge_n n m = Some (Inr g, m')"
    then have run: "ffih_loop ?s ?s m = Some (Inr g, m')" by (simp add: eq)
    from ffih_cases[OF run] obtain A where A: "m' = m" "vh m g" "fac m g = None"
        "path ?f ?s A g" "\<forall>a\<in>set A. inner m a \<and> ?f a \<noteq> ?s"
      by auto
    show "m' = m" by fact
    from path_funpow[OF A(4)] have g: "g = (?f ^^ length A) ?s"
      and nth: "\<forall>j<length A. A ! j = (?f ^^ j) ?s" by auto
    have "\<forall>j<length A. fac m ((?f ^^ j) ?s) \<noteq> None"
      using nth A(5) by (metis inner_def nth_mem)
    with g A(3) show "\<exists>i. g = (?f ^^ i) ?s \<and> fac m g = None \<and> (\<forall>j<i. fac m ((?f ^^ j) ?s) \<noteq> None)"
      by blast
  }
  {
    assume d: "find_free_incident_halfedge_n n m = Some (Inl TopologyError, m')"
    then have run: "ffih_loop ?s ?s m = Some (Inl TopologyError, m')" by (simp add: eq)
    from ffih_cases[OF run] obtain A a where A: "m' = m"
        "path ?f ?s A a" "\<forall>x\<in>set A. inner m x \<and> ?f x \<noteq> ?s" "inner m a" "?f a = ?s"
      by auto
    show "m' = m" by fact
    from path_funpow[OF A(2)] have a: "a = (?f ^^ length A) ?s"
      and nth: "\<forall>j<length A. A ! j = (?f ^^ j) ?s" by auto
    have "\<forall>j<Suc (length A). fac m ((?f ^^ j) ?s) \<noteq> None"
      using nth A(3,4) a by (metis inner_def nth_mem less_Suc_eq)
    moreover have "(?f ^^ Suc (length A)) ?s = ?s" using a A(5) by simp
    ultimately show "\<exists>i>0. (?f ^^ i) ?s = ?s \<and> (\<forall>j<i. fac m ((?f ^^ j) ?s) \<noteq> None)"
      by blast
  }
qed

lemma wedge_walk_facts:
  "\<exists>M. build_wedge empty_mesh = Some (Inr (He 3 False), M) \<and>
      vn M 0 \<and> nhe M 0 = Some (He 0 False) \<and> vh M (He 0 False) \<and> par M (He 0 False) = He 0 True \<and>
      vh M (He 0 True) \<and> fac M (He 0 True) = None \<and> par M (He 0 True) = He 0 False \<and>
      vn M 1 \<and> nhe M 1 = Some (He 0 True) \<and>
      fac M (He 0 False) = Some 0 \<and> vh M (nxt M (He 0 False)) \<and> sig M (He 0 False) = He 1 True \<and>
      vh M (He 1 True) \<and> fac M (He 1 True) = None \<and>
      find_free_incident_halfedge_n 0 M = Some (Inr (He 0 True), M) \<and>
      find_free_incident_halfedge_n 1 M = Some (Inr (He 1 True), M)"
  by (simp add: run)

definition build_pillow :: "face_handle M" where
  "build_pillow = bnd build_triangle (\<lambda>_. add_face (He 0 True) (He 2 True) (He 1 True))"

lemma pillow_walk_facts:
  "\<exists>M. build_pillow empty_mesh = Some (Inr 1, M) \<and>
      vn M 0 \<and> nhe M 0 = Some (He 0 False) \<and> vh M (He 0 False) \<and> par M (He 0 False) = He 0 True \<and>
      inner M (He 0 True) \<and> sig M (He 0 True) = He 2 False \<and>
      inner M (He 2 False) \<and> sig M (He 2 False) = He 0 True \<and>
      find_free_incident_halfedge_n 0 M = Some (Inl TopologyError, M)"
  by (simp add: run build_pillow_def)

theorem find_free_incident_halfedge_walk_witness:
  "find_free_incident_halfedge_n 1 (after build_wedge) = Some (Inr (He 1 True), after build_wedge) \<and>
   fac (after build_wedge) (He 0 False) \<noteq> None \<and> fac (after build_wedge) (He 1 True) = None \<and>
   sig (after build_wedge) (par (after build_wedge) (He 0 True)) = He 1 True \<and>
   find_free_incident_halfedge_n 0 (after build_pillow) = Some (Inl TopologyError, after build_pillow) \<and>
   (sig (after build_pillow) ^^ 2) (par (after build_pillow) (He 0 False)) = par (after build_pillow) (He 0 False)"
proof -
  from wedge_walk_facts obtain W where W: "build_wedge empty_mesh = Some (Inr (He 3 False), W)"
      "vn W 1" "nhe W 1 = Some (He 0 True)" "vh W (He 0 True)" "par W (He 0 True) = He 0 False"
      "vh W (He 0 False)" "fac W (He 0 False) = Some 0" "vh W (nxt W (He 0 False))"
      "sig W (He 0 False) = He 1 True" "vh W (He 1 True)" "fac W (He 1 True) = None"
      "find_free_incident_halfedge_n 1 W = Some (Inr (He 1 True), W)"
    by (elim exE conjE) (rule that; assumption)
  from pillow_walk_facts obtain P where P: "build_pillow empty_mesh = Some (Inr 1, P)"
      "vn P 0" "nhe P 0 = Some (He 0 False)" "vh P (He 0 False)" "par P (He 0 False) = He 0 True"
      "inner P (He 0 True)" "sig P (He 0 True) = He 2 False"
      "inner P (He 2 False)" "sig P (He 2 False) = He 0 True"
      "find_free_incident_halfedge_n 0 P = Some (Inl TopologyError, P)"
    by (elim exE conjE) (rule that; assumption)
  have eq: "after build_wedge = W" "after build_pillow = P"
    using W(1) P(1) by (simp_all add: after_eq)
  have ha: "(\<forall>j\<le>Suc 0. vh W ((sig W ^^ j) (par W (He 0 True)))) \<and>
          (\<forall>j<Suc 0. vh W (nxt W ((sig W ^^ j) (par W (He 0 True))))) \<and>
          fac W ((sig W ^^ Suc 0) (par W (He 0 True))) = None \<and>
          (\<forall>j<Suc 0. fac W ((sig W ^^ j) (par W (He 0 True))) \<noteq> None)"
    using W(2-) by (simp add: le_Suc_eq)
  have a: "find_free_incident_halfedge_n 1 W = Some (Inr ((sig W ^^ Suc 0) (par W (He 0 True))), W)"
    using find_free_incident_halfedge_walk [of W 1 "He 0 True" "Suc 0" "He 1 True" W, OF W(2,3,4)] ha
    by blast
  have hb: "0 < Suc (Suc 0) \<and> (sig P ^^ Suc (Suc 0)) (par P (He 0 False)) = par P (He 0 False) \<and>
          (\<forall>j<Suc (Suc 0). inner P ((sig P ^^ j) (par P (He 0 False))))"
    using P(2-) by (simp add: less_Suc_eq)
  have b: "find_free_incident_halfedge_n 0 P = Some (Inl TopologyError, P)"
    using find_free_incident_halfedge_walk [of P 0 "He 0 False" "Suc (Suc 0)" "He 1 True" P, OF P(2,3,4)] hb
    by blast
  show ?thesis
    unfolding eq using a b W(2-) P(2-) by (simp add: numeral_2_eq_2)
qed

section \<open>The walk of \<^verbatim>\<open>locate\<close>\<close>

text \<open>An exact orientation test, for the examples.\<close>

definition orient :: kernel where
  "orient a b c =
     (let d = (px b - px a) * (py c - py a) - (py b - py a) * (px c - px a)
      in if 0 < d then ON_POSITIVE_SIDE else if d < 0 then ON_NEGATIVE_SIDE
         else ON_ORIENTED_BOUNDARY)"

lemma locate_step_eq:
  assumes "vh m h" "org m h = Some n1" "vn m n1" "vh m (par m h)" "org m (par m h) = Some n2"
    "vn m n2"
  shows "locate_step os p s h m =
     (case os (pos m n1) (pos m n2) p of
        ON_POSITIVE_SIDE \<Rightarrow> case_positive s h m
      | ON_ORIENTED_BOUNDARY \<Rightarrow> case_boundary (pos m n1) (pos m n2) p s h m
      | ON_NEGATIVE_SIDE \<Rightarrow> case_negative s h m)"
  using assms by (simp add: locate_step_def exec split: Oriented_side.splits)

lemma case_negative_eq:
  "vh m h \<Longrightarrow> vh m (par m h) \<Longrightarrow> case_negative s h m =
     (if fac m (par m h) = None
      then Some (Inr (Inl \<lparr>loc = OUTSIDE_MESH, on_node = None, on_edge = Some (edge_id h),
              face_found = None\<rparr>), m)
      else Some (Inr (Inr (par m h, nxt m (par m h))), m))"
  by (simp add: case_negative_def exec)

lemma case_positive_eq:
  "vh m h \<Longrightarrow> vh m (nxt m h) \<Longrightarrow> case_positive s h m =
     (if nxt m h = s
      then Some (Inr (Inl \<lparr>loc = IN_FACE, on_node = None, on_edge = None,
              face_found = fac m (nxt m h)\<rparr>), m)
      else Some (Inr (Inr (s, nxt m h)), m))"
  by (auto simp: case_positive_def exec)

text \<open>
  C7.  A turn of the walk at halfedge \<open>h\<close> from node \<open>n1\<close> to node \<open>n2\<close> in which the kernel
  answers that \<open>p\<close> is on the line: when \<open>p\<close> is strictly between the end points (in its
  x or in its y coordinate) \<^verbatim>\<open>locate\<close> returns \<^verbatim>\<open>ON_EDGE\<close> with the edge of \<open>h\<close>; otherwise,
  when \<open>p\<close> is the position of \<open>n1\<close> (or else of \<open>n2\<close>) it returns \<^verbatim>\<open>ON_NODE\<close> with that
  node; otherwise the turn does what it does when the kernel answers
  \<^verbatim>\<open>ON_NEGATIVE_SIDE\<close>, where the only result is \<^verbatim>\<open>OUTSIDE_MESH\<close>.  So \<^verbatim>\<open>ON_EDGE\<close> is the
  result exactly in the first case and \<^verbatim>\<open>ON_NODE\<close> exactly in the second.
\<close>

theorem locate_on_boundary:
  assumes "vh m h" "org m h = Some n1" "vn m n1" "vh m (par m h)" "org m (par m h) = Some n2"
    "vn m n2" "os (pos m n1) (pos m n2) p = ON_ORIENTED_BOUNDARY"
  shows "(strictly_between (pos m n1) (pos m n2) p \<longrightarrow>
            locate_step os p s h m = Some (Inr (Inl \<lparr>loc = ON_EDGE, on_node = None,
              on_edge = Some (edge_id h), face_found = None\<rparr>), m)) \<and>
         (\<not> strictly_between (pos m n1) (pos m n2) p \<and> p = pos m n1 \<longrightarrow>
            locate_step os p s h m = Some (Inr (Inl \<lparr>loc = ON_NODE, on_node = Some n1,
              on_edge = None, face_found = None\<rparr>), m)) \<and>
         (\<not> strictly_between (pos m n1) (pos m n2) p \<and> p \<noteq> pos m n1 \<and> p = pos m n2 \<longrightarrow>
            locate_step os p s h m = Some (Inr (Inl \<lparr>loc = ON_NODE, on_node = Some n2,
              on_edge = None, face_found = None\<rparr>), m)) \<and>
         (\<not> strictly_between (pos m n1) (pos m n2) p \<and> p \<noteq> pos m n1 \<and> p \<noteq> pos m n2 \<longrightarrow>
            locate_step os p s h m = locate_step (\<lambda>_ _ _. ON_NEGATIVE_SIDE) p s h m \<and>
            locate_step os p s h m = case_negative s h m \<and>
            (\<forall>l m'. locate_step os p s h m = Some (Inr (Inl l), m') \<longrightarrow> loc l = OUTSIDE_MESH)) \<and>
         ((\<exists>l m'. locate_step os p s h m = Some (Inr (Inl l), m') \<and> loc l = ON_EDGE) \<longleftrightarrow>
            strictly_between (pos m n1) (pos m n2) p) \<and>
         ((\<exists>l m'. locate_step os p s h m = Some (Inr (Inl l), m') \<and> loc l = ON_NODE) \<longleftrightarrow>
            \<not> strictly_between (pos m n1) (pos m n2) p \<and> (p = pos m n1 \<or> p = pos m n2))"
proof -
  have step: "locate_step os p s h m = case_boundary (pos m n1) (pos m n2) p s h m"
    using assms by (simp add: locate_step_eq)
  have neg: "locate_step (\<lambda>_ _ _. ON_NEGATIVE_SIDE) p s h m = case_negative s h m"
    using assms by (simp add: locate_step_eq)
  have out: "loc l = OUTSIDE_MESH" if "case_negative s h m = Some (Inr (Inl l), m')" for l m'
    using that assms by (auto simp: case_negative_eq split: if_splits)
  show ?thesis
    unfolding step neg using assms(1-6) out
    by (auto simp: case_boundary_def exec)
qed

lemma triangle_locate_facts:
  "\<exists>M. build_triangle empty_mesh = Some (Inr 0, M) \<and>
      vh M (He 0 False) \<and> org M (He 0 False) = Some 0 \<and> vn M 0 \<and> vh M (par M (He 0 False)) \<and>
      org M (par M (He 0 False)) = Some 1 \<and> vn M 1 \<and>
      pos M 0 = pt 0 0 \<and> pos M 1 = pt 1 0 \<and> fac M (par M (He 0 False)) = None \<and>
      vf M 0 \<and> fhe M 0 = Some (He 0 False) \<and> face_ctr M = 1"
  by (simp add: run)

theorem locate_on_boundary_witness:
  "locate_step orient (pt (1 / 2) 0) (He 0 False) (He 0 False) (after build_triangle) =
     Some (Inr (Inl \<lparr>loc = ON_EDGE, on_node = None, on_edge = Some 0, face_found = None\<rparr>),
           after build_triangle) \<and>
   locate_step orient (pt 0 0) (He 0 False) (He 0 False) (after build_triangle) =
     Some (Inr (Inl \<lparr>loc = ON_NODE, on_node = Some 0, on_edge = None, face_found = None\<rparr>),
           after build_triangle) \<and>
   locate_step orient (pt 1 0) (He 0 False) (He 0 False) (after build_triangle) =
     Some (Inr (Inl \<lparr>loc = ON_NODE, on_node = Some 1, on_edge = None, face_found = None\<rparr>),
           after build_triangle) \<and>
   locate_step orient (pt 2 0) (He 0 False) (He 0 False) (after build_triangle) =
     Some (Inr (Inl \<lparr>loc = OUTSIDE_MESH, on_node = None, on_edge = Some 0, face_found = None\<rparr>),
           after build_triangle)"
proof -
  from triangle_locate_facts obtain T where T: "build_triangle empty_mesh = Some (Inr 0, T)"
      "vh T (He 0 False)" "org T (He 0 False) = Some 0" "vn T 0" "vh T (par T (He 0 False))"
      "org T (par T (He 0 False)) = Some 1" "vn T 1"
      "pos T 0 = pt 0 0" "pos T 1 = pt 1 0" "fac T (par T (He 0 False)) = None"
    by (elim exE conjE) (rule that; assumption)
  have eq: "after build_triangle = T"
    using T(1) by (simp add: after_eq)
  have os: "orient (pos T 0) (pos T 1) (pt x 0) = ON_ORIENTED_BOUNDARY" for x
    using T(8,9) by (simp add: orient_def pt_def)
  have neg: "case_negative (He 0 False) (He 0 False) T =
      Some (Inr (Inl \<lparr>loc = OUTSIDE_MESH, on_node = None, on_edge = Some 0, face_found = None\<rparr>), T)"
    using T by (simp add: case_negative_eq)
  note i1 = locate_on_boundary [of T "He 0 False" 0 1 orient "pt (1 / 2) 0" "He 0 False",
      OF T(2-7) os, THEN conjunct1]
  note i2 = locate_on_boundary [of T "He 0 False" 0 1 orient "pt 0 0" "He 0 False",
      OF T(2-7) os, THEN conjunct2, THEN conjunct1]
  note i3 = locate_on_boundary [of T "He 0 False" 0 1 orient "pt 1 0" "He 0 False",
      OF T(2-7) os, THEN conjunct2, THEN conjunct2, THEN conjunct1]
  note i4 = locate_on_boundary [of T "He 0 False" 0 1 orient "pt 2 0" "He 0 False",
      OF T(2-7) os, THEN conjunct2, THEN conjunct2, THEN conjunct2, THEN conjunct1]
  have c1: "locate_step orient (pt (1 / 2) 0) (He 0 False) (He 0 False) T =
     Some (Inr (Inl \<lparr>loc = ON_EDGE, on_node = None, on_edge = Some 0, face_found = None\<rparr>), T)"
    using i1 T(8,9) by (simp add: strictly_between_def pt_def)
  have c2: "locate_step orient (pt 0 0) (He 0 False) (He 0 False) T =
     Some (Inr (Inl \<lparr>loc = ON_NODE, on_node = Some 0, on_edge = None, face_found = None\<rparr>), T)"
    using i2 T(8,9) by (simp add: strictly_between_def pt_def)
  have c3: "locate_step orient (pt 1 0) (He 0 False) (He 0 False) T =
     Some (Inr (Inl \<lparr>loc = ON_NODE, on_node = Some 1, on_edge = None, face_found = None\<rparr>), T)"
    using i3 T(8,9) by (simp add: strictly_between_def pt_def)
  have c4: "locate_step orient (pt 2 0) (He 0 False) (He 0 False) T =
     Some (Inr (Inl \<lparr>loc = OUTSIDE_MESH, on_node = None, on_edge = Some 0, face_found = None\<rparr>), T)"
  proof -
    have "\<not> strictly_between (pos T 0) (pos T 1) (pt 2 0) \<and> pt 2 0 \<noteq> pos T 0 \<and>
        pt 2 0 \<noteq> pos T 1"
      using T(8,9) by (simp add: strictly_between_def pt_def)
    from i4 [THEN mp, OF this, THEN conjunct2, THEN conjunct1] neg show ?thesis
      by (simp only:)
  qed
  show ?thesis
    unfolding eq using c1 c2 c3 c4 by (intro conjI)
qed

lemma locate_step_state: "locate_step os p s h m = Some (r, m') \<Longrightarrow> m' = m"
  unfolding locate_step_def case_positive_def case_negative_def case_boundary_def
  by (auto simp: exec split: if_splits option.splits Oriented_side.splits)

lemma locate_step_outside:
  assumes "locate_step os p s h m = Some (Inr (Inl l), m')" "loc l = OUTSIDE_MESH"
  shows "vh m h \<and> vh m (par m h) \<and> fac m (par m h) = None \<and> on_edge l = Some (edge_id h)"
  using assms
  unfolding locate_step_def case_positive_def case_negative_def case_boundary_def
  by (auto simp: exec split: if_splits option.splits Oriented_side.splits)

lemma locate_loop_outside:
  assumes "locate_loop os p s h m = Some y"
  shows "\<forall>l m'. y = (Inr l, m') \<and> loc l = OUTSIDE_MESH \<longrightarrow>
     m' = m \<and> (\<exists>s h. locate_step os p s h m = Some (Inr (Inl l), m) \<and> vh m h \<and>
        vh m (par m h) \<and> fac m (par m h) = None \<and> on_edge l = Some (edge_id h))"
proof (rule locate_loop.raw_induct[where P = "\<lambda>os p s h m y.
    \<forall>l m'. y = (Inr l, m') \<and> loc l = OUTSIDE_MESH \<longrightarrow>
     m' = m \<and> (\<exists>s h. locate_step os p s h m = Some (Inr (Inl l), m) \<and> vh m h \<and>
        vh m (par m h) \<and> fac m (par m h) = None \<and> on_edge l = Some (edge_id h))", OF _ assms])
  fix loop os p he_start he_iter m y
  assume IH: "\<And>os p s h m y. loop os p s h m = Some y \<Longrightarrow>
      \<forall>l m'. y = (Inr l, m') \<and> loc l = OUTSIDE_MESH \<longrightarrow>
       m' = m \<and> (\<exists>s h. locate_step os p s h m = Some (Inr (Inl l), m) \<and> vh m h \<and>
          vh m (par m h) \<and> fac m (par m h) = None \<and> on_edge l = Some (edge_id h))"
    and body: "bnd (locate_step os p he_start he_iter)
        (\<lambda>w. if isl w then ret (projl w) else loop os p (fst (projr w)) (snd (projr w))) m = Some y"
  show "\<forall>l m'. y = (Inr l, m') \<and> loc l = OUTSIDE_MESH \<longrightarrow>
       m' = m \<and> (\<exists>s h. locate_step os p s h m = Some (Inr (Inl l), m) \<and> vh m h \<and>
          vh m (par m h) \<and> fac m (par m h) = None \<and> on_edge l = Some (edge_id h))"
  proof (intro allI impI)
    fix l m'
    assume y: "y = (Inr l, m') \<and> loc l = OUTSIDE_MESH"
    with body obtain w m1 where w: "locate_step os p he_start he_iter m = Some (Inr w, m1)"
      and rest: "(if isl w then ret (projl w) else loop os p (fst (projr w)) (snd (projr w))) m1
          = Some (Inr l, m')"
      by (auto simp: bnd_eq_Inr)
    have m1: "m1 = m" using w by (rule locate_step_state)
    show "m' = m \<and> (\<exists>s h. locate_step os p s h m = Some (Inr (Inl l), m) \<and> vh m h \<and>
          vh m (par m h) \<and> fac m (par m h) = None \<and> on_edge l = Some (edge_id h))"
    proof (cases w)
      case (Inl l')
      with rest have "l' = l" "m' = m" by (simp_all add: ret_def m1)
      with w Inl m1 locate_step_outside[of os p he_start he_iter m l m] y show ?thesis
        by blast
    next
      case (Inr c)
      with rest have "loop os p (fst c) (snd c) m = Some (Inr l, m')" by (simp add: m1)
      from IH[OF this] y show ?thesis by blast
    qed
  qed
qed

text \<open>
  C8.  When \<^verbatim>\<open>locate\<close> returns \<^verbatim>\<open>OUTSIDE_MESH\<close>, it does so in a turn of its loop at a
  halfedge \<open>h\<close> whose pair is a boundary halfedge, and the edge written to \<^verbatim>\<open>on_edge\<close> is the
  edge of \<open>h\<close>.  The mesh is not changed.
\<close>

theorem locate_outside_mesh:
  assumes "locate os p start_face m = Some (Inr l, m')" "loc l = OUTSIDE_MESH"
  shows "m' = m \<and> (\<exists>s h. locate_step os p s h m = Some (Inr (Inl l), m) \<and> vh m h \<and>
          vh m (par m h) \<and> fac m (par m h) = None \<and> on_edge l = Some (edge_id h))"
proof -
  from assms(1) obtain he m1 where start: "(case start_face of
            None \<Rightarrow> bnd faces_begin (\<lambda>f. bnd (deref f) face_halfedge)
          | Some f \<Rightarrow> face_halfedge f) m = Some (Inr he, m1)"
    and loop: "locate_loop os p he he m1 = Some (Inr l, m')"
    by (auto simp: locate_def bnd_eq_Inr)
  have "m1 = m"
    using start
    by (cases start_face) (auto simp: faces_begin_def bnd_eq_Inr exec split: option.splits if_splits)
  with locate_loop_outside[OF loop] assms(2) show ?thesis by blast
qed

lemma locate_loop_done:
  "locate_step os p s h m = Some (Inr (Inl l), m1) \<Longrightarrow> locate_loop os p s h m = Some (Inr l, m1)"
  by (subst locate_loop.simps) (simp add: bnd_Inr ret_def)

lemma locate_loop_next:
  "locate_step os p s h m = Some (Inr (Inr (s', h')), m1) \<Longrightarrow>
     locate_loop os p s h m = locate_loop os p s' h' m1"
  by (subst locate_loop.simps) (simp add: bnd_Inr)

theorem locate_outside_mesh_witness:
  "locate orient (pt 2 0) None (after build_triangle) =
     Some (Inr \<lparr>loc = OUTSIDE_MESH, on_node = None, on_edge = Some 0, face_found = None\<rparr>,
           after build_triangle) \<and>
   fac (after build_triangle) (par (after build_triangle) (He 0 False)) = None"
proof -
  from triangle_locate_facts obtain T where T: "build_triangle empty_mesh = Some (Inr 0, T)"
      "vh T (He 0 False)" "org T (He 0 False) = Some 0" "vn T 0" "vh T (par T (He 0 False))"
      "org T (par T (He 0 False)) = Some 1" "vn T 1"
      "pos T 0 = pt 0 0" "pos T 1 = pt 1 0" "fac T (par T (He 0 False)) = None"
      "vf T 0" "fhe T 0 = Some (He 0 False)" "face_ctr T = 1"
    by (elim exE conjE) (rule that; assumption)
  have eq: "after build_triangle = T"
    using T(1) by (simp add: after_eq)
  have step: "locate_step orient (pt 2 0) (He 0 False) (He 0 False) T =
      Some (Inr (Inl \<lparr>loc = OUTSIDE_MESH, on_node = None, on_edge = Some 0, face_found = None\<rparr>), T)"
    using T by (simp add: locate_step_eq[OF T(2-7)] orient_def pt_def case_boundary_def
        strictly_between_def case_negative_eq)
  have start: "bnd faces_begin (\<lambda>f. bnd (deref f) face_halfedge) T = Some (Inr (He 0 False), T)"
    using T by (auto simp: faces_begin_def exec vf_def)
  have run: "locate orient (pt 2 0) None T =
      Some (Inr \<lparr>loc = OUTSIDE_MESH, on_node = None, on_edge = Some 0, face_found = None\<rparr>, T)"
    unfolding locate_def option.case
    by (subst bnd_Inr [of "bnd faces_begin (\<lambda>f. bnd (deref f) face_halfedge)" T "He 0 False" T,
        OF start]) (rule locate_loop_done [OF step])
  show ?thesis
    unfolding eq using run T(10) locate_outside_mesh[OF run] by simp
qed


section \<open>A non-manifold \<^verbatim>\<open>add_face\<close>\<close>

text \<open>
  C2.  The claim is that \<^verbatim>\<open>add_face\<close> on boundary halfedges that form a chain throws the
  \<^verbatim>\<open>add_face_error\<close> of the non-manifold case when a call of \<^verbatim>\<open>make_adjacent\<close> fails.  The
  code at a concrete input: in the triangle with a fourth edge leaving node 0, the three
  outer halfedges are boundary halfedges and form a chain, the first call of
  \<^verbatim>\<open>make_adjacent\<close> finds no free incident halfedge and throws \<^verbatim>\<open>bad_topology_error\<close>, and this
  is the exception with which \<^verbatim>\<open>add_face\<close> ends, the mesh being unchanged.
\<close>

theorem add_face_non_manifold_throws_topology_error:
  "fac (after build_wedge) (He 0 True) = None \<and> fac (after build_wedge) (He 2 True) = None \<and>
   fac (after build_wedge) (He 1 True) = None \<and>
   org (after build_wedge) (par (after build_wedge) (He 0 True)) = org (after build_wedge) (He 2 True) \<and>
   org (after build_wedge) (par (after build_wedge) (He 2 True)) = org (after build_wedge) (He 1 True) \<and>
   org (after build_wedge) (par (after build_wedge) (He 1 True)) = org (after build_wedge) (He 0 True) \<and>
   make_adjacent (He 0 True) (He 2 True) (after build_wedge)
     = Some (Inl TopologyError, after build_wedge) \<and>
   add_face (He 0 True) (He 2 True) (He 1 True) (after build_wedge)
     = Some (Inl TopologyError, after build_wedge)"
proof -
  have "\<exists>M. build_wedge empty_mesh = Some (Inr (He 3 False), M) \<and>
      fac M (He 0 True) = None \<and> fac M (He 2 True) = None \<and> fac M (He 1 True) = None \<and>
      org M (par M (He 0 True)) = org M (He 2 True) \<and>
      org M (par M (He 2 True)) = org M (He 1 True) \<and>
      org M (par M (He 1 True)) = org M (He 0 True) \<and>
      make_adjacent (He 0 True) (He 2 True) M = Some (Inl TopologyError, M) \<and>
      add_face (He 0 True) (He 2 True) (He 1 True) M = Some (Inl TopologyError, M)"
    by (simp add: run)
  then obtain W where W: "build_wedge empty_mesh = Some (Inr (He 3 False), W)"
    and facts: "fac W (He 0 True) = None \<and> fac W (He 2 True) = None \<and> fac W (He 1 True) = None \<and>
      org W (par W (He 0 True)) = org W (He 2 True) \<and>
      org W (par W (He 2 True)) = org W (He 1 True) \<and>
      org W (par W (He 1 True)) = org W (He 0 True) \<and>
      make_adjacent (He 0 True) (He 2 True) W = Some (Inl TopologyError, W) \<and>
      add_face (He 0 True) (He 2 True) (He 1 True) W = Some (Inl TopologyError, W)"
    by (elim exE conjE) (rule that; (assumption | intro conjI))+
  from W have "after build_wedge = W" by (rule after_eq)
  with facts show ?thesis by simp
qed


section \<open>The invariant of the connectivity\<close>

text \<open>
  The properties that the public operations keep.  Besides the four equations on pair,
  next, prev and origin: links stay inside the store, the pair of a halfedge is the other
  halfedge of its edge, origins are nodes that are not isolated, no edge is a loop, the
  halfedge of a node leaves that node, and the halfedges that enter a node form one
  cycle under \<open>next.pair\<close>.  A halfedge with null origin (inside \<^verbatim>\<open>add_edge\<close>) has its pair as
  prev.
\<close>

definition links_closed :: "mesh \<Rightarrow> bool" where
  "links_closed m \<longleftrightarrow> (\<forall>h. vh m h \<longrightarrow> vh m (nxt m h) \<and> vh m (prv m h))"

definition pair_ok :: "mesh \<Rightarrow> bool" where
  "pair_ok m \<longleftrightarrow> (\<forall>h. vh m h \<longrightarrow> par m h = He (edge_id h) (\<not> second h) \<and> vh m (He (edge_id h) (\<not> second h)))"

definition next_prev :: "mesh \<Rightarrow> bool" where
  "next_prev m \<longleftrightarrow> (\<forall>h. vh m h \<longrightarrow> prv m (nxt m h) = h \<and> nxt m (prv m h) = h)"

definition origin_coh :: "mesh \<Rightarrow> bool" where
  "origin_coh m \<longleftrightarrow> (\<forall>h. vh m h \<longrightarrow> org m (nxt m h) = org m (par m h))"

definition origin_valid :: "mesh \<Rightarrow> bool" where
  "origin_valid m \<longleftrightarrow> (\<forall>h n. vh m h \<longrightarrow> org m h = Some n \<longrightarrow> vn m n \<and> nhe m n \<noteq> None)"

definition no_loop :: "mesh \<Rightarrow> bool" where
  "no_loop m \<longleftrightarrow> (\<forall>h n. vh m h \<longrightarrow> org m h = Some n \<longrightarrow> org m (par m h) \<noteq> Some n)"

definition unattached_ok :: "mesh \<Rightarrow> bool" where
  "unattached_ok m \<longleftrightarrow> (\<forall>h. vh m h \<longrightarrow> org m h = None \<longrightarrow> prv m h = par m h)"

definition node_he :: "mesh \<Rightarrow> bool" where
  "node_he m \<longleftrightarrow> (\<forall>n h. vn m n \<longrightarrow> nhe m n = Some h \<longrightarrow> vh m h \<and> org m h = Some n)"

definition fresh_ok :: "mesh \<Rightarrow> bool" where
  "fresh_ok m \<longleftrightarrow> (\<forall>h. vh m h \<longrightarrow> edge_id h < edge_ctr m) \<and> (\<forall>n. vn m n \<longrightarrow> n < node_ctr m)"

definition incoming :: "mesh \<Rightarrow> node_handle \<Rightarrow> halfedge_handle set" where
  "incoming m n = {h. vh m h \<and> org m (par m h) = Some n}"

definition cyc :: "('a \<Rightarrow> 'a) \<Rightarrow> 'a list \<Rightarrow> bool" where
  "cyc f xs \<longleftrightarrow> distinct xs \<and> (xs \<noteq> [] \<longrightarrow> path f (hd xs) xs (hd xs))"

definition fan :: "mesh \<Rightarrow> bool" where
  "fan m \<longleftrightarrow> (\<forall>n. \<exists>xs. cyc (sig m) xs \<and> set xs = incoming m n)"

definition mesh_inv :: "mesh \<Rightarrow> bool" where
  "mesh_inv m \<longleftrightarrow> links_closed m \<and> pair_ok m \<and> next_prev m \<and> origin_coh m \<and> origin_valid m \<and>
     no_loop m \<and> unattached_ok m \<and> node_he m \<and> fresh_ok m \<and> fan m"

lemma invD:
  assumes "mesh_inv m"
  shows "links_closed m" "pair_ok m" "next_prev m" "origin_coh m" "origin_valid m"
    "no_loop m" "unattached_ok m" "node_he m" "fresh_ok m" "fan m"
  using assms by (simp_all add: mesh_inv_def)

subsection \<open>Consequences\<close>

lemma vh_nxt: "links_closed m \<Longrightarrow> vh m h \<Longrightarrow> vh m (nxt m h)"
  by (simp add: links_closed_def)

lemma vh_prv: "links_closed m \<Longrightarrow> vh m h \<Longrightarrow> vh m (prv m h)"
  by (simp add: links_closed_def)

lemma par_eq: "pair_ok m \<Longrightarrow> vh m h \<Longrightarrow> par m h = He (edge_id h) (\<not> second h)"
  by (simp add: pair_ok_def)

lemma vh_par: "pair_ok m \<Longrightarrow> vh m h \<Longrightarrow> vh m (par m h)"
  by (simp add: pair_ok_def)

lemma par_par: "pair_ok m \<Longrightarrow> vh m h \<Longrightarrow> par m (par m h) = h"
  by (simp add: pair_ok_def)

lemma par_neq: "pair_ok m \<Longrightarrow> vh m h \<Longrightarrow> par m h \<noteq> h"
  by (cases h) (simp add: pair_ok_def)

lemma par_inj: "pair_ok m \<Longrightarrow> vh m h \<Longrightarrow> vh m k \<Longrightarrow> par m h = par m k \<Longrightarrow> h = k"
  by (metis par_par)

lemma par_eq_iff: "pair_ok m \<Longrightarrow> vh m h \<Longrightarrow> vh m k \<Longrightarrow> par m h = k \<longleftrightarrow> h = par m k"
  by (metis par_par)

lemma prv_nxt: "next_prev m \<Longrightarrow> vh m h \<Longrightarrow> prv m (nxt m h) = h"
  by (simp add: next_prev_def)

lemma nxt_prv: "next_prev m \<Longrightarrow> vh m h \<Longrightarrow> nxt m (prv m h) = h"
  by (simp add: next_prev_def)

lemma nxt_eq_iff:
  "next_prev m \<Longrightarrow> vh m h \<Longrightarrow> vh m k \<Longrightarrow> nxt m h = k \<longleftrightarrow> h = prv m k"
  by (metis prv_nxt nxt_prv)

lemma prv_eq_iff:
  "next_prev m \<Longrightarrow> vh m h \<Longrightarrow> vh m k \<Longrightarrow> prv m h = k \<longleftrightarrow> h = nxt m k"
  by (metis prv_nxt nxt_prv)

lemma vh_sig: "links_closed m \<Longrightarrow> pair_ok m \<Longrightarrow> vh m h \<Longrightarrow> vh m (sig m h)"
  by (simp add: sig_def vh_nxt vh_par)

lemma sig_inj:
  "links_closed m \<Longrightarrow> pair_ok m \<Longrightarrow> next_prev m \<Longrightarrow> vh m h \<Longrightarrow> vh m k \<Longrightarrow>
     sig m h = sig m k \<Longrightarrow> h = k"
  unfolding sig_def by (metis par_inj vh_nxt prv_nxt)

lemma org_sig:
  "links_closed m \<Longrightarrow> pair_ok m \<Longrightarrow> origin_coh m \<Longrightarrow> vh m h \<Longrightarrow>
     org m (par m (sig m h)) = org m (par m h)"
  by (simp add: sig_def par_par vh_nxt origin_coh_def)

lemma sig_incoming:
  "links_closed m \<Longrightarrow> pair_ok m \<Longrightarrow> origin_coh m \<Longrightarrow> h \<in> incoming m n \<Longrightarrow>
     sig m h \<in> incoming m n"
  by (simp add: incoming_def org_sig vh_sig)

lemma incoming_disjoint: "h \<in> incoming m n \<Longrightarrow> h \<in> incoming m k \<Longrightarrow> n = k"
  by (simp add: incoming_def)

lemma inv_empty: "mesh_inv empty_mesh"
  by (simp add: mesh_inv_def links_closed_def pair_ok_def next_prev_def origin_coh_def
      origin_valid_def no_loop_def unattached_ok_def node_he_def fresh_ok_def fan_def
      incoming_def cyc_def)

subsection \<open>Cycles as lists\<close>

lemma path_last: "path f x (zs @ [z]) y \<Longrightarrow> f z = y"
  by (simp add: path_snoc)

lemma path_hd: "path f x zs y \<Longrightarrow> zs \<noteq> [] \<Longrightarrow> hd zs = x"
  by (cases zs) auto

lemma path_start: "path f x zs y \<Longrightarrow> zs = [] \<and> x = y \<or> (\<exists>ws. zs = x # ws)"
  by (cases zs) auto

lemma cyc_rotate:
  assumes "cyc f (as @ bs)" "bs \<noteq> []"
  shows "cyc f (bs @ as)"
proof (cases as)
  case Nil
  with assms show ?thesis by simp
next
  case (Cons a as')
  obtain b bs' where bs: "bs = b # bs'" using assms(2) by (cases bs) auto
  from assms(1) have d: "distinct (as @ bs)" and p: "path f a (as @ bs) a"
    by (simp_all add: cyc_def Cons)
  from p obtain z where z: "path f a as z" "path f z bs a"
    by (auto simp: path_append)
  from z(2) bs have "z = b" by simp
  with z have "path f b (bs @ as) b"
    by (auto simp: path_append)
  with d bs show ?thesis
    by (auto simp: cyc_def)
qed

lemma cyc_to_last:
  assumes "cyc f xs" "g \<in> set xs"
  shows "\<exists>ys. cyc f (ys @ [g]) \<and> set (ys @ [g]) = set xs"
proof -
  from assms(2) obtain as bs where xs: "xs = as @ g # bs"
    by (auto simp: in_set_conv_decomp)
  show ?thesis
  proof (cases bs)
    case Nil
    with xs assms(1) show ?thesis by (intro exI[of _ as]) simp
  next
    case (Cons b bs')
    have "cyc f ((as @ [g]) @ bs)" using assms(1) xs by simp
    then have "cyc f (bs @ (as @ [g]))" by (rule cyc_rotate) (simp add: Cons)
    then show ?thesis using xs by (intro exI[of _ "bs @ as"]) auto
  qed
qed

lemma cyc_to_first:
  assumes "cyc f xs" "g \<in> set xs"
  shows "\<exists>ys. cyc f (g # ys) \<and> set (g # ys) = set xs"
proof -
  from assms(2) obtain as bs where xs: "xs = as @ g # bs"
    by (auto simp: in_set_conv_decomp)
  have "cyc f (as @ (g # bs))" using assms(1) xs by simp
  then have "cyc f ((g # bs) @ as)" by (rule cyc_rotate) simp
  then show ?thesis using xs by (intro exI[of _ "bs @ as"]) auto
qed

lemma cyc_cong: "(\<And>z. z \<in> set xs \<Longrightarrow> f z = g z) \<Longrightarrow> cyc f xs = cyc g xs"
  using path_cong[of xs f g] by (auto simp: cyc_def)

lemma cyc_single: "cyc f [x] \<longleftrightarrow> f x = x"
  by (auto simp: cyc_def)

lemma cyc_Nil [simp]: "cyc f []"
  by (simp add: cyc_def)


subsection \<open>New nodes and new edges\<close>

lemma sig_eqI: "nxt m' = nxt m \<Longrightarrow> par m' = par m \<Longrightarrow> sig m' = sig m"
  by (rule ext) (simp add: sig_def)

lemma incoming_eqI: "vh m' = vh m \<Longrightarrow> org m' = org m \<Longrightarrow> par m' = par m \<Longrightarrow>
    incoming m' = incoming m"
  by (rule ext) (simp add: incoming_def)

lemma fan_eqI:
  "fan m \<Longrightarrow> sig m' = sig m \<Longrightarrow> incoming m' = incoming m \<Longrightarrow> fan m'"
  by (simp add: fan_def)

lemma inv_new_node: "mesh_inv m \<Longrightarrow> mesh_inv (w_pos n p (new_node m))"
  unfolding mesh_inv_def
proof (intro conjI, goal_cases)
  case 1 then show ?case by (simp add: links_closed_def)
next
  case 2 then show ?case by (simp add: pair_ok_def)
next
  case 3 then show ?case by (simp add: next_prev_def)
next
  case 4 then show ?case by (simp add: origin_coh_def)
next
  case 5 then show ?case by (auto simp: origin_valid_def fresh_ok_def)
next
  case 6 then show ?case by (simp add: no_loop_def)
next
  case 7 then show ?case by (simp add: unattached_ok_def)
next
  case 8 then show ?case by (auto simp: node_he_def)
next
  case 9 then show ?case by (auto simp: fresh_ok_def)
next
  case 10
  then have "fan m" by simp
  then show ?case by (rule fan_eqI) (auto intro!: sig_eqI incoming_eqI)
qed

lemma He_collapse [simp]: "He e (second h) = h \<longleftrightarrow> edge_id h = e"
  by (cases h) auto

lemma new_edge_sig:
  "sig (new_edge m) k = (if edge_id k = edge_ctr m then k
     else if edge_id (nxt m k) = edge_ctr m then He (edge_id (nxt m k)) (\<not> second (nxt m k))
     else sig m k)"
  by (cases k) (auto simp: sig_def)

lemma inv_new_edge:
  assumes "mesh_inv m"
  shows "mesh_inv (new_edge m)"
proof -
  note i = invD[OF assms]
  have fresh: "vh m h \<Longrightarrow> edge_id h \<noteq> edge_ctr m" for h
    using i(9) by (auto simp: fresh_ok_def)
  have fresh_n: "vh m h \<Longrightarrow> edge_id (nxt m h) \<noteq> edge_ctr m" for h
    using fresh[of "nxt m h"] vh_nxt[OF i(1)] by blast
  have fresh_p: "vh m h \<Longrightarrow> edge_id (prv m h) \<noteq> edge_ctr m" for h
    using fresh[of "prv m h"] vh_prv[OF i(1)] by blast
  have fresh_r: "vh m h \<Longrightarrow> edge_id (par m h) \<noteq> edge_ctr m" for h
    using fresh[of "par m h"] vh_par[OF i(2)] by blast
  show ?thesis
    unfolding mesh_inv_def
  proof (intro conjI, goal_cases)
    case 1 show ?case using i(1) fresh by (auto simp: links_closed_def)
  next
    case 2 show ?case using i(2) by (auto simp: pair_ok_def)
  next
    case 3 show ?case using i(3) fresh_n fresh_p by (auto simp: next_prev_def)
  next
    case 4 show ?case using i(4) fresh_n fresh_r by (auto simp: origin_coh_def)
  next
    case 5 show ?case using i(5) by (auto simp: origin_valid_def)
  next
    case 6 show ?case using i(6) fresh_r by (auto simp: no_loop_def)
  next
    case 7 show ?case using i(7) by (auto simp: unattached_ok_def)
  next
    case 8 show ?case using i(8) fresh by (auto simp: node_he_def)
  next
    case 9 show ?case using i(9) by (auto simp: fresh_ok_def)
  next
    case 10
    have inc: "incoming (new_edge m) n = incoming m n" for n
      using fresh fresh_r by (auto simp: incoming_def)
    show ?case
      unfolding fan_def
    proof
      fix n
      from i(10) obtain xs where xs: "cyc (sig m) xs" "set xs = incoming m n"
        unfolding fan_def by blast
      have "sig (new_edge m) z = sig m z" if "z \<in> set xs" for z
      proof -
        from that xs have "vh m z" by (auto simp: incoming_def)
        then show ?thesis using fresh fresh_n by (simp add: new_edge_sig)
      qed
      then have "cyc (sig (new_edge m)) xs = cyc (sig m) xs" by (rule cyc_cong)
      with xs inc show "\<exists>xs. cyc (sig (new_edge m)) xs \<and> set xs = incoming (new_edge m) n"
        by blast
    qed
  qed
qed


subsection \<open>Attaching a halfedge to a node\<close>

text \<open>The mesh after \<^verbatim>\<open>attach_halfedge_to_node\<close>, for an isolated node and for a node at
  which the free incident halfedge \<open>g\<close> was found.\<close>

definition att_iso :: "halfedge_handle \<Rightarrow> node_handle \<Rightarrow> mesh \<Rightarrow> mesh" where
  "att_iso he n m =
     w_next (par m he) he (w_prev he (par m he) (w_nhe n (Some he) (w_origin he (Some n) m)))"

definition att_splice :: "halfedge_handle \<Rightarrow> node_handle \<Rightarrow> halfedge_handle \<Rightarrow> mesh \<Rightarrow> mesh" where
  "att_splice he n g m =
     w_prev (nxt m g) (par m he) (w_next (par m he) (nxt m g)
       (w_prev he g (w_next g he (w_origin he (Some n) m))))"

lemma inner_cong:
  "vh m' = vh m \<Longrightarrow> fac m' = fac m \<Longrightarrow> nxt m' = nxt m \<Longrightarrow> inner m' = inner m"
  by (rule ext) (simp add: inner_def)

lemma attach_isolated:
  "vh m he \<Longrightarrow> vh m (par m he) \<Longrightarrow> vn m n \<Longrightarrow> nhe m n = None \<Longrightarrow>
     attach_halfedge_to_node he n m = Some (Inr (), att_iso he n m)"
  by (simp add: attach_halfedge_to_node_def att_iso_def exec)

lemma attach_splice:
  assumes "vh m he" "vh m (par m he)" "vn m n" "nhe m n = Some h0" "vh m h0"
    and "ffih_loop (par m h0) (par m h0) (w_origin he (Some n) m) = Some (Inr g, m1)"
  shows "attach_halfedge_to_node he n m = Some (Inr (), att_splice he n g m) \<or>
     (\<not> vh m (nxt m g) \<and> (\<exists>m2. attach_halfedge_to_node he n m = Some (Inl InvalidHandle, m2)))"
proof -
  from ffih_cases[OF assms(6)] have m1: "m1 = w_origin he (Some n) m" and g: "vh m g"
    by auto
  show ?thesis
    using assms(1-5) g
    by (simp add: attach_halfedge_to_node_def find_free_incident_halfedge_n_def exec assms(6) m1
        att_splice_def)
qed

lemma attach_success:
  assumes "attach_halfedge_to_node he n m = Some (Inr u, m')"
  shows "vh m he \<and> vn m n \<and> vh m (par m he) \<and>
    (nhe m n = None \<and> m' = att_iso he n m \<or>
     (\<exists>h0 g A. nhe m n = Some h0 \<and> vh m h0 \<and> path (sig m) (par m h0) A g \<and>
        (\<forall>a\<in>set A. inner m a) \<and> vh m g \<and> fac m g = None \<and> vh m (nxt m g) \<and>
        m' = att_splice he n g m))"
proof -
  from assms have he: "vh m he" and n: "vn m n"
    by (auto simp: attach_halfedge_to_node_def exec split: if_splits)
  show ?thesis
  proof (cases "nhe m n")
    case None
    with assms he n show ?thesis
      by (auto simp: attach_halfedge_to_node_def att_iso_def exec split: if_splits)
  next
    case (Some h0)
    let ?m1 = "w_origin he (Some n) m"
    from assms he n Some have h0: "vh m h0"
      by (auto simp: attach_halfedge_to_node_def find_free_incident_halfedge_n_def exec
          split: if_splits)
    from assms he n Some h0 obtain r where r: "ffih_loop (par m h0) (par m h0) ?m1 = Some r"
      by (auto simp: attach_halfedge_to_node_def find_free_incident_halfedge_n_def exec
          split: if_splits option.splits)
    from ffih_cases[OF r] have sr: "snd r = ?m1" by simp
    from assms he n Some h0 r sr obtain g where g: "r = (Inr g, ?m1)"
      by (cases r; cases "fst r")
        (auto simp: attach_halfedge_to_node_def find_free_incident_halfedge_n_def exec)
    from ffih_cases[OF r] g obtain A where A: "vh m g" "fac m g = None"
        "path (sig ?m1) (par m h0) A g" "\<forall>a\<in>set A. inner ?m1 a"
      by auto
    have sig1: "sig ?m1 = sig m" by (rule sig_eqI) simp_all
    have inner1: "inner ?m1 = inner m" by (rule inner_cong) simp_all
    from assms he n Some h0 r g A(1) have rest: "vh m (nxt m g) \<and> vh m (par m he) \<and>
        m' = att_splice he n g m"
      by (auto simp: attach_halfedge_to_node_def find_free_incident_halfedge_n_def exec
          att_splice_def split: if_splits)
    with he n Some h0 A show ?thesis
      unfolding sig1 inner1 by blast
  qed
qed

lemma path_incoming:
  assumes "links_closed m" "pair_ok m" "origin_coh m"
  shows "path (sig m) x A y \<Longrightarrow> x \<in> incoming m n \<Longrightarrow> y \<in> incoming m n \<and> set A \<subseteq> incoming m n"
proof (induction A arbitrary: x)
  case Nil
  then show ?case by simp
next
  case (Cons a A)
  then have "a = x" "path (sig m) (sig m x) A y" by auto
  moreover have "sig m x \<in> incoming m n" using Cons.prems(2) assms by (simp add: sig_incoming)
  ultimately show ?case using Cons.IH[of "sig m x"] Cons.prems(2) by auto
qed

lemma node_he_incoming:
  "pair_ok m \<Longrightarrow> node_he m \<Longrightarrow> vn m n \<Longrightarrow> nhe m n = Some h0 \<Longrightarrow> par m h0 \<in> incoming m n"
  by (simp add: incoming_def node_he_def par_par vh_par)

lemma att_iso_reads:
  assumes "vh m he" "vh m (par m he)" "vn m n"
  shows "vh (att_iso he n m) = vh m" "vn (att_iso he n m) = vn m"
    "par (att_iso he n m) = par m" "fac (att_iso he n m) = fac m"
    "node_ctr (att_iso he n m) = node_ctr m" "edge_ctr (att_iso he n m) = edge_ctr m"
    "org (att_iso he n m) = (org m)(he := Some n)"
    "nhe (att_iso he n m) = (nhe m)(n := Some he)"
    "nxt (att_iso he n m) = (nxt m)(par m he := he)"
    "prv (att_iso he n m) = (prv m)(he := par m he)"
  using assms by (auto simp: att_iso_def fun_eq_iff)

lemma att_splice_reads:
  assumes "vh m he" "vh m (par m he)" "vh m g" "vh m (nxt m g)"
  shows "vh (att_splice he n g m) = vh m" "vn (att_splice he n g m) = vn m"
    "par (att_splice he n g m) = par m" "fac (att_splice he n g m) = fac m"
    "nhe (att_splice he n g m) = nhe m"
    "node_ctr (att_splice he n g m) = node_ctr m" "edge_ctr (att_splice he n g m) = edge_ctr m"
    "org (att_splice he n g m) = (org m)(he := Some n)"
    "nxt (att_splice he n g m) = (nxt m)(g := he, par m he := nxt m g)"
    "prv (att_splice he n g m) = (prv m)(he := g, nxt m g := par m he)"
  using assms by (auto simp: att_splice_def fun_eq_iff)


lemma incoming_empty_isolated:
  "origin_valid m \<Longrightarrow> pair_ok m \<Longrightarrow> vn m n \<Longrightarrow> nhe m n = None \<Longrightarrow> incoming m n = {}"
  by (auto simp: incoming_def origin_valid_def dest: vh_par)

lemma inv_att_iso:
  assumes "mesh_inv m" "vh m he" "org m he = None" "vn m n" "nhe m n = None"
  shows "mesh_inv (att_iso he n m)"
proof -
  note i = invD[OF assms(1)]
  let ?hp = "par m he"
  let ?m' = "att_iso he n m"
  have hp: "vh m ?hp" "?hp \<noteq> he" "par m ?hp = he"
    using i(2) assms(2) by (simp_all add: vh_par par_neq par_par)
  have prv_he: "prv m he = ?hp" using i(7) assms(2,3) by (simp add: unattached_ok_def)
  have nxt_hp: "nxt m ?hp = he" using nxt_prv[OF i(3) assms(2)] prv_he by simp
  have org_hp: "org m ?hp \<noteq> Some n"
    using i(5) hp(1) assms(5) by (auto simp: origin_valid_def)
  note r = att_iso_reads[OF assms(2) hp(1) assms(4)]
  have nxt': "nxt ?m' = nxt m" using nxt_hp by (auto simp: r)
  have prv': "prv ?m' = prv m" using prv_he by (auto simp: r)
  have par_he_iff: "par m h = he \<longleftrightarrow> h = ?hp" if "vh m h" for h
    using that i(2) assms(2) by (metis par_par)
  have nxt_he_iff: "nxt m h = he \<longleftrightarrow> h = ?hp" if "vh m h" for h
    using that nxt_eq_iff[OF i(3) that assms(2)] prv_he by simp
  show ?thesis
    unfolding mesh_inv_def
  proof (intro conjI, goal_cases)
    case 1 show ?case using i(1) by (simp add: links_closed_def r(1) nxt' prv')
  next
    case 2 show ?case using i(2) by (simp add: pair_ok_def r)
  next
    case 3 show ?case using i(3) by (simp add: next_prev_def r(1) nxt' prv')
  next
    case 4 show ?case using i(4) par_he_iff nxt_he_iff
      by (auto simp: origin_coh_def r(1,3,7) nxt')
  next
    case 5 show ?case using i(5) assms(4)
      by (auto simp: origin_valid_def r)
  next
    case 6 show ?case using i(6) org_hp par_he_iff hp
      by (auto simp: no_loop_def r(1,3,7))
  next
    case 7 show ?case using i(7) by (auto simp: unattached_ok_def r(1,3,7) prv')
  next
    case 8 show ?case using i(8) assms(2,3) by (auto simp: node_he_def r)
  next
    case 9 show ?case using i(9) by (simp add: fresh_ok_def r)
  next
    case 10
    have sig': "sig ?m' = sig m" by (rule sig_eqI) (simp_all add: nxt' r)
    have inc_n: "incoming ?m' n = {?hp}"
      using incoming_empty_isolated[OF i(5) i(2) assms(4,5)] par_he_iff hp
      by (auto simp: incoming_def r(1,3,7))
    have inc_k: "incoming ?m' k = incoming m k" if "k \<noteq> n" for k
      using that assms(3) par_he_iff by (auto simp: incoming_def r(1,3,7))
    show ?case
      unfolding fan_def sig'
    proof
      fix k
      show "\<exists>xs. cyc (sig m) xs \<and> set xs = incoming ?m' k"
      proof (cases "k = n")
        case True
        have "sig m ?hp = ?hp" by (simp add: sig_def nxt_hp)
        then have "cyc (sig m) [?hp]" by (simp add: cyc_single)
        with inc_n True show ?thesis by (intro exI[of _ "[?hp]"]) simp
      next
        case False
        with i(10) inc_k show ?thesis by (simp add: fan_def)
      qed
    qed
  qed
qed

lemma inv_att_splice:
  assumes "mesh_inv m" "vh m he" "org m he = None" "g \<in> incoming m n"
    "org m (par m he) \<noteq> Some n"
  shows "mesh_inv (att_splice he n g m)"
proof -
  note i = invD[OF assms(1)]
  let ?hp = "par m he"
  let ?o = "nxt m g"
  let ?m' = "att_splice he n g m"
  have g: "vh m g" "org m (par m g) = Some n" using assms(4) by (simp_all add: incoming_def)
  have hp: "vh m ?hp" "?hp \<noteq> he" "par m ?hp = he"
    using i(2) assms(2) by (simp_all add: vh_par par_neq par_par)
  have o: "vh m ?o" using i(1) g(1) by (rule vh_nxt)
  have n: "vn m n" "nhe m n \<noteq> None"
    using i(5) vh_par[OF i(2) g(1)] g(2) by (auto simp: origin_valid_def)
  have prv_he: "prv m he = ?hp" using i(7) assms(2,3) by (simp add: unattached_ok_def)
  have nxt_hp: "nxt m ?hp = he" using nxt_prv[OF i(3) assms(2)] prv_he by simp
  have org_o: "org m ?o = Some n" using i(4) g by (simp add: origin_coh_def)
  have g_he: "g \<noteq> he" using g(2) assms(5) by auto
  have g_hp: "g \<noteq> ?hp" using g(2) hp(3) assms(3) by auto
  have o_he: "?o \<noteq> he" using org_o assms(3) by auto
  have o_hp: "?o \<noteq> ?hp" using org_o assms(5) by auto
  have prv_o: "prv m ?o = g" using i(3) g(1) by (rule prv_nxt)
  note r = att_splice_reads[OF assms(2) hp(1) g(1) o]
  have par_he_iff: "par m h = he \<longleftrightarrow> h = ?hp" if "vh m h" for h
    using that i(2) assms(2) by (metis par_par)
  have par_hp_iff: "par m h = ?hp \<longleftrightarrow> h = he" if "vh m h" for h
    using that i(2) assms(2) by (metis par_par)
  have nxt_he_iff: "nxt m h = he \<longleftrightarrow> h = ?hp" if "vh m h" for h
    using that nxt_eq_iff[OF i(3) that assms(2)] prv_he by simp
  have nxt_o_iff: "nxt m h = ?o \<longleftrightarrow> h = g" if "vh m h" for h
    using that nxt_eq_iff[OF i(3) that o] prv_o by simp
  have prv_g_iff: "prv m h = g \<longleftrightarrow> h = ?o" if "vh m h" for h
    using that prv_eq_iff[OF i(3) that g(1)] by simp
  have prv_hp_iff: "prv m h = ?hp \<longleftrightarrow> h = he" if "vh m h" for h
    using that prv_eq_iff[OF i(3) that hp(1)] nxt_hp by simp
  show ?thesis
    unfolding mesh_inv_def
  proof (intro conjI, goal_cases)
    case 1 show ?case using i(1) assms(2) hp(1) g(1) o
      by (auto simp: links_closed_def r)
  next
    case 2 show ?case using i(2) by (simp add: pair_ok_def r)
  next
    case 3
    show ?case
      unfolding next_prev_def r
    proof (intro allI impI conjI)
      fix h assume h: "vh m h"
      show "((prv m)(he := g, ?o := ?hp)) (((nxt m)(g := he, ?hp := ?o)) h) = h"
        using h g_he g_hp o_he o_hp nxt_he_iff[OF h] nxt_o_iff[OF h] prv_nxt[OF i(3) h]
        by auto
      show "((nxt m)(g := he, ?hp := ?o)) (((prv m)(he := g, ?o := ?hp)) h) = h"
        using h g_he g_hp o_he o_hp prv_g_iff[OF h] prv_hp_iff[OF h] nxt_prv[OF i(3) h]
        by auto
    qed
  next
    case 4
    show ?case
      unfolding origin_coh_def r
    proof (intro allI impI)
      fix h assume h: "vh m h"
      show "((org m)(he := Some n)) (((nxt m)(g := he, ?hp := ?o)) h) = ((org m)(he := Some n)) (par m h)"
        using h g g_he g_hp o_he o_hp org_o hp nxt_he_iff[OF h] par_he_iff[OF h] i(4)
        by (auto simp: origin_coh_def)
    qed
  next
    case 5 show ?case using i(5) n by (auto simp: origin_valid_def r)
  next
    case 6 show ?case using i(6) assms(5) par_he_iff hp
      by (auto simp: no_loop_def r)
  next
    case 7
    show ?case
      unfolding unattached_ok_def r
    proof (intro allI impI)
      fix h assume h: "vh m h" and "((org m)(he := Some n)) h = None"
      then have "org m h = None" "h \<noteq> he" by (auto split: if_splits)
      moreover from this org_o have "h \<noteq> ?o" by auto
      ultimately show "((prv m)(he := g, ?o := ?hp)) h = par m h"
        using i(7) h by (simp add: unattached_ok_def)
    qed
  next
    case 8 show ?case using i(8) assms(2,3) by (auto simp: node_he_def r)
  next
    case 9 show ?case using i(9) by (simp add: fresh_ok_def r)
  next
    case 10
    have sig': "sig ?m' = (sig m)(g := ?hp, ?hp := sig m g)"
      using hp(3) g_hp by (auto simp: sig_def r fun_eq_iff)
    have inc_n: "incoming ?m' n = insert ?hp (incoming m n)"
      using par_he_iff hp by (auto simp: incoming_def r)
    have inc_k: "incoming ?m' k = incoming m k" if "k \<noteq> n" for k
      using that assms(3) par_he_iff by (auto simp: incoming_def r)
    have hp_notin: "?hp \<notin> incoming m k" for k
      using hp(3) assms(3) by (simp add: incoming_def)
    show ?case
      unfolding fan_def
    proof
      fix k
      from i(10) obtain xs where xs: "cyc (sig m) xs" "set xs = incoming m k"
        unfolding fan_def by blast
      show "\<exists>xs. cyc (sig ?m') xs \<and> set xs = incoming ?m' k"
      proof (cases "k = n")
        case False
        have "g \<notin> set xs" using xs(2) assms(4) False incoming_disjoint by blast
        moreover have "?hp \<notin> set xs" using xs(2) hp_notin by simp
        ultimately have "cyc (sig ?m') xs = cyc (sig m) xs"
          by (intro cyc_cong) (auto simp: sig')
        with xs inc_k[OF False] show ?thesis by blast
      next
        case True
        with xs assms(4) have "g \<in> set xs" by simp
        from cyc_to_last[OF xs(1) this] obtain ys where ys: "cyc (sig m) (ys @ [g])"
          "set (ys @ [g]) = set xs" by blast
        have hpn: "?hp \<notin> set (ys @ [g])" using ys(2) xs(2) hp_notin by simp
        from ys(1) have d: "distinct (ys @ [g])"
          and p: "path (sig m) (hd (ys @ [g])) (ys @ [g]) (hd (ys @ [g]))"
          by (simp_all add: cyc_def)
        from p have p1: "path (sig m) (hd (ys @ [g])) ys g" and p2: "sig m g = hd (ys @ [g])"
          by (simp_all add: path_snoc)
        have "path (sig ?m') (hd (ys @ [g])) ys g = path (sig m) (hd (ys @ [g])) ys g"
          using d hpn by (intro path_cong) (auto simp: sig')
        with p1 have p1': "path (sig ?m') (hd (ys @ [g])) ys g" by simp
        have "path (sig ?m') (hd (ys @ [g])) (ys @ [g, ?hp]) (hd (ys @ [g]))"
          using p1' p2 g_hp by (simp add: path_append sig')
        moreover have "hd (ys @ [g, ?hp]) = hd (ys @ [g])" by (cases ys) simp_all
        ultimately have "cyc (sig ?m') (ys @ [g, ?hp])"
          using d hpn g_hp by (simp add: cyc_def)
        moreover have "set (ys @ [g, ?hp]) = incoming ?m' k"
          using ys(2) xs(2) True inc_n by auto
        ultimately show ?thesis by blast
      qed
    qed
  qed
qed


lemma inv_cong:
  assumes "vh m' = vh m" "vn m' = vn m" "org m' = org m" "par m' = par m" "nxt m' = nxt m"
    "prv m' = prv m" "nhe m' = nhe m" "node_ctr m' = node_ctr m" "edge_ctr m' = edge_ctr m"
  shows "mesh_inv m' = mesh_inv m"
proof -
  have "sig m' = sig m" using assms by (intro sig_eqI)
  moreover have "incoming m' = incoming m" using assms by (intro incoming_eqI)
  ultimately show ?thesis
    using assms
    by (simp add: mesh_inv_def links_closed_def pair_ok_def next_prev_def origin_coh_def
        origin_valid_def no_loop_def unattached_ok_def node_he_def fresh_ok_def fan_def)
qed

lemma inv_attach:
  assumes "mesh_inv m" "org m he = None" "org m (par m he) \<noteq> Some n"
    and "attach_halfedge_to_node he n m = Some (Inr u, m')"
  shows "mesh_inv m' \<and> vh m' = vh m \<and> vn m' = vn m \<and> par m' = par m \<and> fac m' = fac m \<and>
    org m' = (org m)(he := Some n) \<and> node_ctr m' = node_ctr m \<and> edge_ctr m' = edge_ctr m"
proof -
  note i = invD[OF assms(1)]
  from attach_success[OF assms(4)] have he: "vh m he" and n: "vn m n" and hp: "vh m (par m he)"
    and c: "nhe m n = None \<and> m' = att_iso he n m \<or>
     (\<exists>h0 g A. nhe m n = Some h0 \<and> vh m h0 \<and> path (sig m) (par m h0) A g \<and>
        (\<forall>a\<in>set A. inner m a) \<and> vh m g \<and> fac m g = None \<and> vh m (nxt m g) \<and>
        m' = att_splice he n g m)"
    by blast+
  from c show ?thesis
  proof (elim disjE conjE exE)
    assume "nhe m n = None" "m' = att_iso he n m"
    then show ?thesis
      using inv_att_iso[OF assms(1) he assms(2) n] att_iso_reads[OF he hp n] by simp
  next
    fix h0 g A
    assume a: "nhe m n = Some h0" "vh m h0" "path (sig m) (par m h0) A g" "vh m g"
      "vh m (nxt m g)" "m' = att_splice he n g m"
    have "par m h0 \<in> incoming m n" using i(2,8) n a(1) by (rule node_he_incoming)
    with path_incoming[OF i(1,2,4) a(3)] have "g \<in> incoming m n" by simp
    then show ?thesis
      using inv_att_splice[OF assms(1) he assms(2) _ assms(3)] a(6)
        att_splice_reads[OF he hp a(4,5)] by simp
  qed
qed

definition all_attached :: "mesh \<Rightarrow> bool" where
  "all_attached m \<longleftrightarrow> (\<forall>h. vh m h \<longrightarrow> org m h \<noteq> None)"

lemma inv_add_edge:
  assumes "mesh_inv m" "add_edge n1 n2 m = Some (Inr h, m')"
  shows "mesh_inv m' \<and> h = He (edge_ctr m) False \<and>
    (\<forall>k. vh m' k \<longleftrightarrow> edge_id k = edge_ctr m \<or> vh m k) \<and> vn m' = vn m \<and>
    (\<forall>k. vh m k \<longrightarrow> org m' k = org m k \<and> fac m' k = fac m k \<and> par m' k = par m k) \<and>
    org m' (He (edge_ctr m) False) = Some n1 \<and> org m' (He (edge_ctr m) True) = Some n2 \<and>
    fac m' (He (edge_ctr m) False) = None \<and> fac m' (He (edge_ctr m) True) = None \<and>
    par m' (He (edge_ctr m) False) = He (edge_ctr m) True \<and>
    par m' (He (edge_ctr m) True) = He (edge_ctr m) False \<and>
    node_ctr m' = node_ctr m \<and> edge_ctr m' = Suc (edge_ctr m)"
proof -
  let ?e = "edge_ctr m"
  let ?m0 = "new_edge m"
  from assms(2) have ne: "n1 \<noteq> n2"
    by (auto simp: add_edge_def throw_def split: if_splits)
  from assms(2) ne obtain u1 m1 u2 where
    a1: "attach_halfedge_to_node (He ?e False) n1 ?m0 = Some (Inr u1, m1)" and
    a2: "attach_halfedge_to_node (He ?e True) n2 m1 = Some (Inr u2, m')" and
    h: "h = He ?e False"
    by (auto simp: add_edge_def bnd_eq_Inr get_new_edge_eq he1_eq he2_eq ret_def split: if_splits)
  have i0: "mesh_inv ?m0" using assms(1) by (rule inv_new_edge)
  have fresh: "vh m k \<Longrightarrow> edge_id k \<noteq> ?e" for k
    using invD(9)[OF assms(1)] by (auto simp: fresh_ok_def)
  from inv_attach[OF i0 _ _ a1] have 1: "mesh_inv m1" "vh m1 = vh ?m0" "vn m1 = vn ?m0"
    "par m1 = par ?m0" "fac m1 = fac ?m0" "org m1 = (org ?m0)(He ?e False := Some n1)"
    "node_ctr m1 = node_ctr ?m0" "edge_ctr m1 = edge_ctr ?m0"
    by simp_all
  from inv_attach[OF 1(1) _ _ a2] ne have 2: "mesh_inv m'" "vh m' = vh m1" "vn m' = vn m1"
    "par m' = par m1" "fac m' = fac m1" "org m' = (org m1)(He ?e True := Some n2)"
    "node_ctr m' = node_ctr m1" "edge_ctr m' = edge_ctr m1"
    by (simp_all add: 1)
  have nv: "\<not> vh m (He ?e b)" for b
    using fresh[of "He ?e b"] by auto
  show ?thesis
    using 2(1) h fresh nv by (auto simp: 1 2)
qed

lemma all_attached_add_edge:
  assumes "mesh_inv m" "all_attached m" "add_edge n1 n2 m = Some (Inr h, m')"
  shows "all_attached m'"
  unfolding all_attached_def
proof (intro allI impI)
  fix k assume k: "vh m' k"
  note r = inv_add_edge[OF assms(1,3)]
  show "org m' k \<noteq> None"
  proof (cases "vh m k")
    case True
    with r assms(2) show ?thesis by (simp add: all_attached_def)
  next
    case False
    with k r have "edge_id k = edge_ctr m" by simp
    then have "k = He (edge_ctr m) False \<or> k = He (edge_ctr m) True"
      by (cases k) auto
    with r show ?thesis by auto
  qed
qed


subsection \<open>Removing a face and an edge\<close>

definition rem_face :: "face_handle \<Rightarrow> mesh \<Rightarrow> mesh" where
  "rem_face f m = (let h = the (fhe m f) in
     del_face f (w_face (prv m h) None (w_face (nxt m h) None (w_face h None m))))"

lemma remove_face_success:
  assumes "remove_face f m = Some (Inr u, m')"
  shows "vf m f \<and> (\<exists>h. fhe m f = Some h \<and> vh m h \<and> vh m (nxt m h) \<and> vh m (prv m h)) \<and>
    m' = rem_face f m"
  using assms
  by (auto simp: remove_face_def rem_face_def exec split: if_splits)

lemma rem_face_reads:
  "vh (rem_face f m) = vh m" "vn (rem_face f m) = vn m" "org (rem_face f m) = org m"
  "par (rem_face f m) = par m" "nxt (rem_face f m) = nxt m" "prv (rem_face f m) = prv m"
  "nhe (rem_face f m) = nhe m" "node_ctr (rem_face f m) = node_ctr m"
  "edge_ctr (rem_face f m) = edge_ctr m" "face_ctr (rem_face f m) = face_ctr m"
  "vf (rem_face f m) k \<longleftrightarrow> k \<noteq> f \<and> vf m k"
  by (simp_all add: rem_face_def Let_def)

lemma inv_rem_face: "mesh_inv (rem_face f m) = mesh_inv m"
  by (rule inv_cong) (simp_all add: rem_face_reads)

definition det_node :: "halfedge_handle \<Rightarrow> mesh \<Rightarrow> mesh" where
  "det_node he m = (let n = the (org m he) in
     if nhe m n = Some he then
       (if nxt m (par m he) \<noteq> he then w_nhe n (Some (nxt m (par m he))) m else w_nhe n None m)
     else m)"

definition det :: "halfedge_handle \<Rightarrow> mesh \<Rightarrow> mesh" where
  "det he m = w_prev (nxt m (par m he)) (prv m he)
     (w_next (prv m he) (nxt m (par m he)) (det_node he m))"

lemma detach_success:
  assumes "detach_edge he m = Some (Inr u, m')"
  shows "vh m he \<and> (\<exists>n. org m he = Some n \<and> vn m n) \<and> vh m (par m he) \<and>
    vh m (nxt m (par m he)) \<and> vh m (prv m he) \<and> m' = det he m"
proof -
  from assms have he: "vh m he"
    by (auto simp: detach_edge_def exec split: if_splits)
  with assms obtain n where n: "org m he = Some n"
    by (cases "org m he") (auto simp: detach_edge_def exec)
  with assms he have vn: "vn m n"
    by (auto simp: detach_edge_def exec split: if_splits)
  from assms he n vn have v: "vh m (par m he) \<and> vh m (nxt m (par m he)) \<and> vh m (prv m he)"
    by (auto simp: detach_edge_def exec split: if_splits)
  from assms he n vn v have "m' = det he m"
    by (auto simp: detach_edge_def det_def det_node_def exec split: if_splits)
  with he n vn v show ?thesis by blast
qed

lemma det_reads:
  assumes "vh m he" "vh m (prv m he)" "vh m (nxt m (par m he))" "org m he = Some n" "vn m n"
  shows "vh (det he m) = vh m" "vn (det he m) = vn m" "par (det he m) = par m"
    "org (det he m) = org m" "fac (det he m) = fac m"
    "node_ctr (det he m) = node_ctr m" "edge_ctr (det he m) = edge_ctr m"
    "face_ctr (det he m) = face_ctr m" "vf (det he m) = vf m" "fhe (det he m) = fhe m"
    "nxt (det he m) = (nxt m)(prv m he := nxt m (par m he))"
    "prv (det he m) = (prv m)(nxt m (par m he) := prv m he)"
    "nhe (det he m) = (nhe m)(n := if nhe m n = Some he
        then (if nxt m (par m he) \<noteq> he then Some (nxt m (par m he)) else None) else nhe m n)"
  using assms by (auto simp: det_def det_node_def fun_eq_iff)


lemma path_succ_in:
  "path f s (zs @ [l]) y \<Longrightarrow> z \<in> set zs \<Longrightarrow> f z \<in> set (zs @ [l])"
proof (induction zs arbitrary: s)
  case Nil
  then show ?case by simp
next
  case (Cons a zs)
  then have a: "a = s" and p: "path f (f s) (zs @ [l]) y" by auto
  show ?case
  proof (cases "z = a")
    case True
    from p have "hd (zs @ [l]) = f s" by (auto dest: path_hd)
    then have "f s \<in> set (zs @ [l])" by (metis hd_in_set snoc_eq_iff_butlast)
    with True a show ?thesis by simp
  next
    case False
    with Cons.prems have "z \<in> set zs" by simp
    from Cons.IH[OF p this] show ?thesis by simp
  qed
qed

lemma cyc_fixpoint:
  assumes "cyc f xs" "x \<in> set xs" "f x = x"
  shows "set xs = {x}"
proof -
  from cyc_to_first[OF assms(1,2)] obtain ys where ys: "cyc f (x # ys)" "set (x # ys) = set xs"
    by blast
  then have d: "x \<notin> set ys" and p: "path f (f x) ys x" by (auto simp: cyc_def)
  have "ys = []"
  proof (rule ccontr)
    assume "ys \<noteq> []"
    with p have "hd ys = f x" by (rule path_hd)
    with \<open>ys \<noteq> []\<close> assms(3) d show False by (metis hd_in_set)
  qed
  with ys(2) show ?thesis by auto
qed

lemma cyc_remove:
  assumes "cyc f xs" "x \<in> set xs"
    and same: "\<And>z. z \<in> set xs \<Longrightarrow> z \<noteq> x \<Longrightarrow> f z \<noteq> x \<Longrightarrow> f' z = f z"
    and pred: "\<And>z. z \<in> set xs \<Longrightarrow> z \<noteq> x \<Longrightarrow> f z = x \<Longrightarrow> f' z = f x"
  shows "\<exists>ys. cyc f' ys \<and> set ys = set xs - {x}"
proof -
  from cyc_to_first[OF assms(1,2)] obtain ys where ys: "cyc f (x # ys)" "set (x # ys) = set xs"
    by blast
  then have d: "x \<notin> set ys" "distinct ys" and p: "path f (f x) ys x" by (auto simp: cyc_def)
  have set: "set ys = set xs - {x}" using ys(2) d(1) by auto
  show ?thesis
  proof (cases ys rule: rev_cases)
    case Nil
    with set show ?thesis by (intro exI[of _ "[]"]) simp
  next
    case (snoc zs l)
    with p have p1: "path f (f x) zs l" and fl: "f l = x" by (simp_all add: path_snoc)
    have l: "l \<in> set xs" "l \<noteq> x" using snoc set by auto
    have f'l: "f' l = f x" using pred[OF l fl] .
    have "f' z = f z" if "z \<in> set zs" for z
    proof -
      from path_succ_in[OF p[unfolded snoc] that] d(1) snoc have "f z \<noteq> x" by auto
      moreover have "z \<in> set xs" "z \<noteq> x" using that snoc set by auto
      ultimately show ?thesis using same by blast
    qed
    then have "path f' (f x) zs l = path f (f x) zs l" by (intro path_cong)
    with p1 f'l have p': "path f' (f x) (zs @ [l]) (f x)" by (simp add: path_snoc)
    have "hd (zs @ [l]) = f x" using p snoc by (auto dest: path_hd)
    with p' d(2) snoc have "cyc f' ys" by (simp add: cyc_def)
    with set show ?thesis by blast
  qed
qed


text \<open>The links after both halfedges of edge \<open>e\<close> are detached and the edge is deleted.\<close>

definition rem_links :: "edge_handle \<Rightarrow> mesh \<Rightarrow> mesh" where
  "rem_links e m = del_edge e (det (He e True) (det (He e False) m))"

lemma org_nxt: "origin_coh m \<Longrightarrow> vh m h \<Longrightarrow> org m (nxt m h) = org m (par m h)"
  by (simp add: origin_coh_def)

lemma edge_id_cases: "edge_id k = e \<longleftrightarrow> k = He e False \<or> k = He e True"
  by (cases k) auto

lemma inv_rem_links:
  assumes "mesh_inv m" "vh m (He e False)" "org m (He e False) = Some n1" "org m (He e True) = Some n2"
  shows "mesh_inv (rem_links e m)"
    and "\<And>k. vh (rem_links e m) k \<longleftrightarrow> edge_id k \<noteq> e \<and> vh m k"
    and "\<And>k. edge_id k \<noteq> e \<Longrightarrow> org (rem_links e m) k = org m k"
    and "\<And>k. edge_id k \<noteq> e \<Longrightarrow> fac (rem_links e m) k = fac m k"
    and "\<And>k. edge_id k \<noteq> e \<Longrightarrow> par (rem_links e m) k = par m k"
    and "vn (rem_links e m) = vn m" "vf (rem_links e m) = vf m" "fhe (rem_links e m) = fhe m"
    and "face_ctr (rem_links e m) = face_ctr m" "node_ctr (rem_links e m) = node_ctr m"
    and "edge_ctr (rem_links e m) = edge_ctr m"
    and "\<And>k. edge_id k \<noteq> e \<Longrightarrow> vh m k \<Longrightarrow> nxt (rem_links e m) k =
      (if k = prv m (He e True) then nxt m (He e False)
       else if k = prv m (He e False) then nxt m (He e True) else nxt m k)"
    and "\<And>k. edge_id k \<noteq> e \<Longrightarrow> vh m k \<Longrightarrow> prv (rem_links e m) k =
      (if k = nxt m (He e False) then prv m (He e True)
       else if k = nxt m (He e True) then prv m (He e False) else prv m k)"
proof -
  note i = invD[OF assms(1)]
  let ?h1 = "He e False"
  let ?h2 = "He e True"
  let ?a = "prv m ?h1"
  let ?b = "nxt m ?h2"
  let ?c = "prv m ?h2"
  let ?d = "nxt m ?h1"
  let ?m1 = "det ?h1 m"
  let ?m2 = "det ?h2 ?m1"
  let ?m' = "rem_links e m"
  have h1: "vh m ?h1" by fact
  have p12: "par m ?h1 = ?h2" using par_eq[OF i(2) h1] by simp
  have h2: "vh m ?h2" using vh_par[OF i(2) h1] p12 by simp
  have p21: "par m ?h2 = ?h1" using par_eq[OF i(2) h2] by simp
  have n12: "n1 \<noteq> n2" using i(6) h1 assms(3,4) p12 by (auto simp: no_loop_def)
  have n1: "vn m n1" and n2: "vn m n2"
    using i(5) h1 h2 assms(3,4) by (auto simp: origin_valid_def)
  have va: "vh m ?a" and vd: "vh m ?d" using i(1) h1 by (simp_all add: vh_prv vh_nxt)
  have vb: "vh m ?b" and vc: "vh m ?c" using i(1) h2 by (simp_all add: vh_prv vh_nxt)
  have nxt_a: "nxt m ?a = ?h1" and prv_d: "prv m ?d = ?h1"
    using i(3) h1 by (simp_all add: nxt_prv prv_nxt)
  have nxt_c: "nxt m ?c = ?h2" and prv_b: "prv m ?b = ?h2"
    using i(3) h2 by (simp_all add: nxt_prv prv_nxt)
  have org_d: "org m ?d = Some n2" using org_nxt[OF i(4) h1] p12 assms(4) by simp
  have org_b: "org m ?b = Some n1" using org_nxt[OF i(4) h2] p21 assms(3) by simp
  have org_pa: "org m (par m ?a) = Some n1"
    using org_nxt[OF i(4) va] nxt_a assms(3) by simp
  have org_pc: "org m (par m ?c) = Some n2"
    using org_nxt[OF i(4) vc] nxt_c assms(4) by simp
  have d_h1: "?d \<noteq> ?h1" using org_d assms(3) n12 by auto
  have b_h2: "?b \<noteq> ?h2" using org_b assms(4) n12 by auto
  have a_h1: "?a \<noteq> ?h1" using nxt_a d_h1 by auto
  have c_h2: "?c \<noteq> ?h2" using nxt_c b_h2 by auto
  have a_c: "?a \<noteq> ?c" using nxt_a nxt_c by auto
  have b_d: "?b \<noteq> ?d" using prv_b prv_d by auto
  have a_h2_iff: "?a = ?h2 \<longleftrightarrow> ?b = ?h1"
    using nxt_a prv_b by (metis i(3) h1 h2 nxt_prv prv_nxt)
  have c_h1_iff: "?c = ?h1 \<longleftrightarrow> ?d = ?h2"
    using nxt_c prv_d by (metis i(3) h1 h2 nxt_prv prv_nxt)
  note r1 = det_reads[OF h1 va, unfolded p12, OF vb assms(3) n1]
  have r1_prv: "prv ?m1 ?h2 = ?c" using b_h2 by (simp add: r1)
  have r1_nxt: "nxt ?m1 ?h1 = ?d" using a_h1 by (simp add: r1)
  have r1_par: "par ?m1 ?h2 = ?h1" by (simp add: r1 p21)
  note r2 = det_reads[of ?m1 ?h2 n2, unfolded r1_prv r1_par r1_nxt, unfolded r1, OF h2 vc vd assms(4) n2]
  have live: "edge_id k \<noteq> e \<longleftrightarrow> k \<noteq> ?h1 \<and> k \<noteq> ?h2" for k
    by (auto simp: edge_id_cases)
  show V: "vh ?m' k \<longleftrightarrow> edge_id k \<noteq> e \<and> vh m k" for k
    by (simp add: rem_links_def r2)
  show O: "org ?m' k = org m k" if "edge_id k \<noteq> e" for k
    using that by (simp add: rem_links_def r2)
  show F: "fac ?m' k = fac m k" if "edge_id k \<noteq> e" for k
    using that by (simp add: rem_links_def r2)
  show P: "par ?m' k = par m k" if "edge_id k \<noteq> e" for k
    using that by (simp add: rem_links_def r2)
  show VN: "vn ?m' = vn m" by (simp add: rem_links_def r2 fun_eq_iff)
  show "vf ?m' = vf m" "fhe ?m' = fhe m" "face_ctr ?m' = face_ctr m"
    by (simp_all add: rem_links_def r2 r1)
  show NC: "node_ctr ?m' = node_ctr m" and EC: "edge_ctr ?m' = edge_ctr m"
    by (simp_all add: rem_links_def r2 r1)
  show NX: "nxt ?m' k = (if k = ?c then ?d else if k = ?a then ?b else nxt m k)"
    if "edge_id k \<noteq> e" "vh m k" for k
    using that by (simp add: rem_links_def r2)
  show PV: "prv ?m' k = (if k = ?d then ?c else if k = ?b then ?a else prv m k)"
    if "edge_id k \<noteq> e" "vh m k" for k
    using that by (simp add: rem_links_def r2)
  have NH: "nhe ?m' = (nhe m)(n1 := if nhe m n1 = Some ?h1
        then (if ?b \<noteq> ?h1 then Some ?b else None) else nhe m n1,
      n2 := if nhe m n2 = Some ?h2
        then (if ?d \<noteq> ?h2 then Some ?d else None) else nhe m n2)"
    using n12 by (simp add: rem_links_def r2 fun_eq_iff)
  have nxt_live: "edge_id (nxt ?m' k) \<noteq> e \<and> vh m (nxt ?m' k)" if "edge_id k \<noteq> e" "vh m k" for k
  proof -
    have "nxt m k \<noteq> ?h1 \<and> nxt m k \<noteq> ?h2" if "k \<noteq> ?a" "k \<noteq> ?c"
      using that \<open>vh m k\<close> nxt_eq_iff[OF i(3) \<open>vh m k\<close>] h1 h2 by auto
    then show ?thesis
      using that a_h2_iff c_h1_iff b_h2 d_h1 vb vd vh_nxt[OF i(1) that(2)]
      by (auto simp: NX live)
  qed
  have prv_live: "edge_id (prv ?m' k) \<noteq> e \<and> vh m (prv ?m' k)" if "edge_id k \<noteq> e" "vh m k" for k
  proof -
    have "prv m k \<noteq> ?h1 \<and> prv m k \<noteq> ?h2" if "k \<noteq> ?b" "k \<noteq> ?d"
      using that \<open>vh m k\<close> prv_eq_iff[OF i(3) \<open>vh m k\<close>] h1 h2 by auto
    then show ?thesis
      using that a_h2_iff c_h1_iff a_h1 c_h2 va vc vh_prv[OF i(1) that(2)]
      by (auto simp: PV live)
  qed
  have par_live: "edge_id (par m k) \<noteq> e \<and> vh m (par m k)" if "edge_id k \<noteq> e" "vh m k" for k
    using that i(2) by (auto simp: pair_ok_def)
  have iso1: "org m k \<noteq> Some n1" if "?b = ?h1" "edge_id k \<noteq> e" "vh m k" for k
  proof
    assume k: "org m k = Some n1"
    from i(10) obtain xs where xs: "cyc (sig m) xs" "set xs = incoming m n1"
      unfolding fan_def by blast
    have "?h2 \<in> set xs" using xs(2) h2 p21 assms(3) by (simp add: incoming_def)
    moreover have "sig m ?h2 = ?h2" using that(1) p12 by (simp add: sig_def)
    ultimately have "set xs = {?h2}" using cyc_fixpoint[OF xs(1)] by blast
    moreover have "par m k \<in> set xs"
      using xs(2) k that par_live[OF that(2,3)] i(2) by (simp add: incoming_def par_par)
    ultimately have "par m k = ?h2" by simp
    then have "k = ?h1" using i(2) that(3) h2 p21 by (metis par_par)
    with that(2) show False by simp
  qed
  have iso2: "org m k \<noteq> Some n2" if "?d = ?h2" "edge_id k \<noteq> e" "vh m k" for k
  proof
    assume k: "org m k = Some n2"
    from i(10) obtain xs where xs: "cyc (sig m) xs" "set xs = incoming m n2"
      unfolding fan_def by blast
    have "?h1 \<in> set xs" using xs(2) h1 p12 assms(4) by (simp add: incoming_def)
    moreover have "sig m ?h1 = ?h1" using that(1) p21 by (simp add: sig_def)
    ultimately have "set xs = {?h1}" using cyc_fixpoint[OF xs(1)] by blast
    moreover have "par m k \<in> set xs"
      using xs(2) k that par_live[OF that(2,3)] i(2) by (simp add: incoming_def par_par)
    ultimately have "par m k = ?h1" by simp
    then have "k = ?h2" using i(2) that(3) h1 p12 by (metis par_par)
    with that(2) show False by simp
  qed
  show "mesh_inv ?m'"
    unfolding mesh_inv_def
  proof (intro conjI, goal_cases)
    case 1
    show ?case unfolding links_closed_def V using nxt_live prv_live by blast
  next
    case 2
    show ?case unfolding pair_ok_def V using i(2) P by (auto simp: pair_ok_def)
  next
    case 3
    show ?case
      unfolding next_prev_def V
    proof (intro allI impI conjI)
      fix k assume k: "edge_id k \<noteq> e \<and> vh m k"
      then have kk: "edge_id k \<noteq> e" "vh m k" by auto
      have "prv ?m' (nxt ?m' k) = (if nxt ?m' k = ?d then ?c
          else if nxt ?m' k = ?b then ?a else prv m (nxt ?m' k))"
        using nxt_live[OF kk] by (simp add: PV)
      also have "\<dots> = k"
        using kk b_d a_c nxt_eq_iff[OF i(3) kk(2) vd] nxt_eq_iff[OF i(3) kk(2) vb]
          prv_b prv_d prv_nxt[OF i(3) kk(2)]
        by (auto simp: NX live)
      finally show "prv ?m' (nxt ?m' k) = k" .
      have "nxt ?m' (prv ?m' k) = (if prv ?m' k = ?c then ?d
          else if prv ?m' k = ?a then ?b else nxt m (prv ?m' k))"
        using prv_live[OF kk] by (simp add: NX)
      also have "\<dots> = k"
        using kk b_d a_c prv_eq_iff[OF i(3) kk(2) vc] prv_eq_iff[OF i(3) kk(2) va]
          nxt_a nxt_c nxt_prv[OF i(3) kk(2)]
        by (auto simp: PV live)
      finally show "nxt ?m' (prv ?m' k) = k" .
    qed
  next
    case 4
    show ?case
      unfolding origin_coh_def V
    proof (intro allI impI)
      fix k assume k: "edge_id k \<noteq> e \<and> vh m k"
      then have kk: "edge_id k \<noteq> e" "vh m k" by auto
      have "org ?m' (nxt ?m' k) = org m (nxt ?m' k)" using nxt_live[OF kk] by (simp add: O)
      also have "\<dots> = org m (par m k)"
        using kk org_b org_d org_pa org_pc i(4) by (auto simp: NX origin_coh_def)
      also have "\<dots> = org ?m' (par ?m' k)" using par_live[OF kk] kk by (simp add: O P)
      finally show "org ?m' (nxt ?m' k) = org ?m' (par ?m' k)" .
    qed
  next
    case 5
    show ?case
      unfolding origin_valid_def V VN
    proof (intro allI impI)
      fix k n assume k: "edge_id k \<noteq> e \<and> vh m k" and "org ?m' k = Some n"
      then have kk: "edge_id k \<noteq> e" "vh m k" and o: "org m k = Some n" by (auto simp: O)
      from i(5) kk(2) o have "vn m n" "nhe m n \<noteq> None" by (auto simp: origin_valid_def)
      moreover have "n \<noteq> n1" if "?b = ?h1" using iso1[OF that kk] o by auto
      moreover have "n \<noteq> n2" if "?d = ?h2" using iso2[OF that kk] o by auto
      ultimately show "vn m n \<and> nhe ?m' n \<noteq> None"
        by (auto simp: NH)
    qed
  next
    case 6
    show ?case unfolding no_loop_def V using i(6) par_live
      by (auto simp: O P no_loop_def)
  next
    case 7
    show ?case
      unfolding unattached_ok_def V
    proof (intro allI impI)
      fix k assume k: "edge_id k \<noteq> e \<and> vh m k" and "org ?m' k = None"
      then have kk: "edge_id k \<noteq> e" "vh m k" and o: "org m k = None" by (auto simp: O)
      then have "k \<noteq> ?b" "k \<noteq> ?d" using org_b org_d by auto
      then show "prv ?m' k = par ?m' k"
        using kk o i(7) by (simp add: PV P unattached_ok_def)
    qed
  next
    case 8
    show ?case
      unfolding node_he_def V VN
    proof (intro allI impI)
      fix n h assume n: "vn m n" and nh: "nhe ?m' n = Some h"
      have b: "edge_id ?b \<noteq> e" if "?b \<noteq> ?h1" using that b_h2 by (simp add: live)
      have d: "edge_id ?d \<noteq> e" if "?d \<noteq> ?h2" using that d_h1 by (simp add: live)
      have old: "edge_id h \<noteq> e \<and> vh m h \<and> org m h = Some n"
        if "nhe m n = Some h" "n = n1 \<longrightarrow> h \<noteq> ?h1" "n = n2 \<longrightarrow> h \<noteq> ?h2"
      proof -
        from i(8) n that(1) have "vh m h" "org m h = Some n" by (auto simp: node_he_def)
        moreover from this that(2,3) assms(3,4) have "h \<noteq> ?h1" "h \<noteq> ?h2" by auto
        ultimately show ?thesis by (simp add: live)
      qed
      from nh have "edge_id h \<noteq> e \<and> vh m h \<and> org m h = Some n"
        using b d vb vd org_b org_d old n12
        by (auto simp: NH split: if_splits)
      then show "(edge_id h \<noteq> e \<and> vh m h) \<and> org ?m' h = Some n" by (simp add: O)
    qed
  next
    case 9
    show ?case using i(9) unfolding fresh_ok_def V VN NC EC by blast
  next
    case 10
    have sig0: "sig ?m' k = par m (nxt ?m' k)" if "edge_id k \<noteq> e" "vh m k" for k
      using nxt_live[OF that] by (simp add: sig_def P)
    have sig': "sig ?m' k = (if k = ?c then par m ?d else if k = ?a then par m ?b else sig m k)"
      if "edge_id k \<noteq> e" "vh m k" for k
      unfolding sig0[OF that] NX[OF that] by (simp add: sig_def)
    have inc: "incoming ?m' n = incoming m n - {?h1, ?h2}" for n
    proof -
      have "x \<in> incoming ?m' n \<longleftrightarrow> x \<in> incoming m n - {?h1, ?h2}" for x
      proof (cases "edge_id x \<noteq> e \<and> vh m x")
        case True
        then show ?thesis using par_live[of x] by (simp add: incoming_def V O P live)
      next
        case False
        then show ?thesis by (auto simp: incoming_def V live)
      qed
      then show ?thesis by blast
    qed
    have sig_h1: "sig m ?h1 = par m ?d" and sig_h2: "sig m ?h2 = par m ?b"
      by (simp_all add: sig_def)
    have sig_a: "sig m ?a = ?h2" by (simp add: sig_def nxt_a p12)
    have sig_c: "sig m ?c = ?h1" by (simp add: sig_def nxt_c p21)
    have in_a: "?a \<in> incoming m n1" using va org_pa by (simp add: incoming_def)
    have in_c: "?c \<in> incoming m n2" using vc org_pc by (simp add: incoming_def)
    have in_h2: "?h2 \<in> incoming m n1" using h2 p21 assms(3) by (simp add: incoming_def)
    have in_h1: "?h1 \<in> incoming m n2" using h1 p12 assms(4) by (simp add: incoming_def)
    show ?case
      unfolding fan_def
    proof
      fix n
      from i(10) obtain xs where xs: "cyc (sig m) xs" "set xs = incoming m n"
        unfolding fan_def by blast
      have vx: "vh m z" if "z \<in> set xs" for z using that xs(2) by (simp add: incoming_def)
      consider "n = n1" | "n = n2" | "n \<noteq> n1" "n \<noteq> n2" by blast
      then show "\<exists>xs. cyc (sig ?m') xs \<and> set xs = incoming ?m' n"
      proof cases
        case 1
        have h1n: "?h1 \<notin> set xs" using xs(2) 1 in_h1 n12 incoming_disjoint by blast
        have cn: "?c \<notin> set xs" using xs(2) 1 in_c n12 incoming_disjoint by blast
        have "\<exists>ys. cyc (sig ?m') ys \<and> set ys = set xs - {?h2}"
        proof (rule cyc_remove[OF xs(1)])
          show "?h2 \<in> set xs" using xs(2) 1 in_h2 by simp
        next
          fix z assume z: "z \<in> set xs" "z \<noteq> ?h2" "sig m z \<noteq> ?h2"
          then have zl: "edge_id z \<noteq> e" "vh m z" using h1n vx by (auto simp: live)
          have "z \<noteq> ?a" using z(3) sig_a by auto
          moreover have "z \<noteq> ?c" using z(1) cn by auto
          ultimately show "sig ?m' z = sig m z" using zl by (simp add: sig' sig_h1 sig_h2)
        next
          fix z assume z: "z \<in> set xs" "z \<noteq> ?h2" "sig m z = ?h2"
          then have zl: "edge_id z \<noteq> e" "vh m z" using h1n vx by (auto simp: live)
          have "z = ?a" using sig_inj[OF i(1,2,3) zl(2) va] z(3) sig_a by simp
          then show "sig ?m' z = sig m ?h2" using zl a_c by (simp add: sig' sig_h1 sig_h2)
        qed
        moreover have "set xs - {?h2} = incoming ?m' n" using inc xs(2) h1n by auto
        ultimately show ?thesis by auto
      next
        case 2
        have h2n: "?h2 \<notin> set xs" using xs(2) 2 in_h2 n12 incoming_disjoint by blast
        have an: "?a \<notin> set xs" using xs(2) 2 in_a n12 incoming_disjoint by blast
        have "\<exists>ys. cyc (sig ?m') ys \<and> set ys = set xs - {?h1}"
        proof (rule cyc_remove[OF xs(1)])
          show "?h1 \<in> set xs" using xs(2) 2 in_h1 by simp
        next
          fix z assume z: "z \<in> set xs" "z \<noteq> ?h1" "sig m z \<noteq> ?h1"
          then have zl: "edge_id z \<noteq> e" "vh m z" using h2n vx by (auto simp: live)
          have "z \<noteq> ?c" using z(3) sig_c by auto
          moreover have "z \<noteq> ?a" using z(1) an by auto
          ultimately show "sig ?m' z = sig m z" using zl by (simp add: sig' sig_h1 sig_h2)
        next
          fix z assume z: "z \<in> set xs" "z \<noteq> ?h1" "sig m z = ?h1"
          then have zl: "edge_id z \<noteq> e" "vh m z" using h2n vx by (auto simp: live)
          have "z = ?c" using sig_inj[OF i(1,2,3) zl(2) vc] z(3) sig_c by simp
          then show "sig ?m' z = sig m ?h1" using zl by (simp add: sig' sig_h1 sig_h2)
        qed
        moreover have "set xs - {?h1} = incoming ?m' n" using inc xs(2) h2n by auto
        ultimately show ?thesis by auto
      next
        case 3
        have h1n: "?h1 \<notin> set xs" using xs(2) 3 in_h1 incoming_disjoint by blast
        have h2n: "?h2 \<notin> set xs" using xs(2) 3 in_h2 incoming_disjoint by blast
        have an: "?a \<notin> set xs" using xs(2) 3 in_a incoming_disjoint by blast
        have cn: "?c \<notin> set xs" using xs(2) 3 in_c incoming_disjoint by blast
        have "sig ?m' z = sig m z" if "z \<in> set xs" for z
        proof -
          have "edge_id z \<noteq> e" "vh m z" "z \<noteq> ?a" "z \<noteq> ?c"
            using that h1n h2n an cn vx by (auto simp: live)
          then show ?thesis by (simp add: sig' sig_h1 sig_h2)
        qed
        then have "cyc (sig ?m') xs = cyc (sig m) xs" by (rule cyc_cong)
        moreover have "set xs = incoming ?m' n" using inc xs(2) h1n h2n by auto
        ultimately show ?thesis using xs(1) by blast
      qed
    qed
  qed
qed


definition rem_side :: "halfedge_handle \<Rightarrow> mesh \<Rightarrow> mesh" where
  "rem_side h m = (case fac m h of None \<Rightarrow> m | Some f \<Rightarrow> rem_face f m)"

lemma rem_side_reads:
  "vh (rem_side h m) = vh m" "vn (rem_side h m) = vn m" "org (rem_side h m) = org m"
  "par (rem_side h m) = par m" "nxt (rem_side h m) = nxt m" "prv (rem_side h m) = prv m"
  "nhe (rem_side h m) = nhe m" "node_ctr (rem_side h m) = node_ctr m"
  "edge_ctr (rem_side h m) = edge_ctr m" "face_ctr (rem_side h m) = face_ctr m"
  "vf (rem_side h m) k \<longleftrightarrow> vf m k \<and> fac m h \<noteq> Some k"
  by (auto simp: rem_side_def rem_face_reads split: option.splits)

lemma inv_rem_side: "mesh_inv (rem_side h m) = mesh_inv m"
  by (rule inv_cong) (simp_all add: rem_side_reads)

lemma remove_side_success:
  assumes "bnd (is_boundary h) (\<lambda>b. bnd (if \<not> b then bnd (get_face h)
      (\<lambda>fo. bnd (deref fo) remove_face) else ret ()) k) m = Some (Inr u, m')"
  shows "vh m h \<and> (\<forall>f. fac m h = Some f \<longrightarrow> vf m f) \<and> k () (rem_side h m) = Some (Inr u, m')"
proof -
  from assms have h: "vh m h" by (auto simp: bnd_eq_Inr is_boundary_eq split: if_splits)
  show ?thesis
  proof (cases "fac m h")
    case None
    with assms h show ?thesis by (simp add: exec rem_side_def)
  next
    case (Some f)
    with assms h obtain u1 m1 where 1: "remove_face f m = Some (Inr u1, m1)"
      and 2: "k u1 m1 = Some (Inr u, m')"
      by (auto simp: bnd_eq_Inr is_boundary_eq get_face_eq deref_eq split: if_splits)
    from remove_face_success[OF 1] 2 Some h show ?thesis by (simp add: rem_side_def)
  qed
qed

lemma remove_edge_success:
  assumes "remove_edge e m = Some (Inr u, m')"
  shows "vh m (He e False) \<and> vh m (He e True) \<and>
    (\<forall>f. fac m (He e False) = Some f \<longrightarrow> vf m f) \<and>
    (\<forall>f. fac (rem_side (He e False) m) (He e True) = Some f \<longrightarrow> vf (rem_side (He e False) m) f) \<and>
    (\<exists>n1 n2. org m (He e False) = Some n1 \<and> org m (He e True) = Some n2) \<and>
    (mesh_inv m \<longrightarrow> m' = rem_links e (rem_side (He e True) (rem_side (He e False) m)))"
proof -
  let ?h1 = "He e False" and ?h2 = "He e True"
  let ?mA = "rem_side ?h1 m"
  let ?mB = "rem_side ?h2 ?mA"
  from assms have h1: "vh m ?h1"
    by (auto simp: remove_edge_def bnd_eq_Inr he1_eq split: if_splits)
  from assms h1 have "bnd (is_boundary ?h1) (\<lambda>b. bnd (if \<not> b then bnd (get_face ?h1)
      (\<lambda>fo. bnd (deref fo) remove_face) else ret ())
      (\<lambda>_. bnd (he2 e) (\<lambda>h2. bnd (is_boundary h2) (\<lambda>b2.
     bnd (if \<not> b2 then bnd (get_face h2) (\<lambda>fo. bnd (deref fo) remove_face) else ret ()) (\<lambda>_.
     bnd (he1 e) (\<lambda>h1'. bnd (detach_edge h1') (\<lambda>_.
     bnd (he2 e) (\<lambda>h2'. bnd (detach_edge h2') (\<lambda>_.
     delete_edge e))))))))) m = Some (Inr u, m')"
    by (simp add: remove_edge_def he1_eq bnd_def)
  from remove_side_success[OF this] have f1: "\<forall>f. fac m ?h1 = Some f \<longrightarrow> vf m f"
    and rest1: "bnd (he2 e) (\<lambda>h2. bnd (is_boundary h2) (\<lambda>b2.
     bnd (if \<not> b2 then bnd (get_face h2) (\<lambda>fo. bnd (deref fo) remove_face) else ret ()) (\<lambda>_.
     bnd (he1 e) (\<lambda>h1'. bnd (detach_edge h1') (\<lambda>_.
     bnd (he2 e) (\<lambda>h2'. bnd (detach_edge h2') (\<lambda>_.
     delete_edge e))))))) ?mA = Some (Inr u, m')"
    by auto
  from rest1 have h2A: "vh ?mA ?h2"
    by (auto simp: bnd_eq_Inr he2_eq split: if_splits)
  then have h2: "vh m ?h2" by (simp add: rem_side_reads)
  from rest1 h2A have "bnd (is_boundary ?h2) (\<lambda>b2.
     bnd (if \<not> b2 then bnd (get_face ?h2) (\<lambda>fo. bnd (deref fo) remove_face) else ret ()) (\<lambda>_.
     bnd (he1 e) (\<lambda>h1'. bnd (detach_edge h1') (\<lambda>_.
     bnd (he2 e) (\<lambda>h2'. bnd (detach_edge h2') (\<lambda>_.
     delete_edge e)))))) ?mA = Some (Inr u, m')"
    by (simp add: he2_eq bnd_def)
  from remove_side_success[OF this] have f2: "\<forall>f. fac ?mA ?h2 = Some f \<longrightarrow> vf ?mA f"
    and rest2: "bnd (he1 e) (\<lambda>h1'. bnd (detach_edge h1') (\<lambda>_.
     bnd (he2 e) (\<lambda>h2'. bnd (detach_edge h2') (\<lambda>_.
     delete_edge e)))) ?mB = Some (Inr u, m')"
    by auto
  have vB: "vh ?mB = vh m" by (simp add: rem_side_reads)
  from rest2 h1 vB obtain u1 m1 where d1: "detach_edge ?h1 ?mB = Some (Inr u1, m1)"
    and rest3: "bnd (he2 e) (\<lambda>h2'. bnd (detach_edge h2') (\<lambda>_. delete_edge e)) m1 = Some (Inr u, m')"
    by (auto simp: bnd_eq_Inr he1_eq split: if_splits)
  from detach_success[OF d1] obtain n1 where D1: "org m ?h1 = Some n1" "vn m n1"
      "vh m (par m ?h1)" "vh m (nxt m (par m ?h1))" "vh m (prv m ?h1)" "m1 = det ?h1 ?mB"
    by (auto simp: rem_side_reads)
  have D1B: "vh ?mB ?h1" "vh ?mB (prv ?mB ?h1)" "vh ?mB (nxt ?mB (par ?mB ?h1))"
      "org ?mB ?h1 = Some n1" "vn ?mB n1"
    using h1 D1 by (simp_all add: rem_side_reads)
  note r1 = det_reads[OF D1B]
  from rest3 obtain u2 m2 where h2': "vh m1 ?h2" and d2: "detach_edge ?h2 m1 = Some (Inr u2, m2)"
    and del: "delete_edge e m2 = Some (Inr u, m')"
    by (auto simp: bnd_eq_Inr he2_eq split: if_splits)
  from detach_success[OF d2] obtain n2 where D2: "org m1 ?h2 = Some n2" "m2 = det ?h2 m1"
    by auto
  then have o2: "org m ?h2 = Some n2" by (simp add: D1(6) r1 rem_side_reads)
  from del have "m' = del_edge e m2" by (auto simp: delete_edge_eq split: if_splits)
  then have m': "m' = rem_links e ?mB" by (simp add: rem_links_def D2(2) D1(6))
  show ?thesis using h1 h2 f1 f2 D1(1) o2 m' by blast
qed

lemma inv_remove_edge:
  assumes "mesh_inv m" "remove_edge e m = Some (Inr u, m')"
  shows "mesh_inv m'" "\<And>k. vh m' k \<longleftrightarrow> edge_id k \<noteq> e \<and> vh m k" "vn m' = vn m"
    "\<And>k. edge_id k \<noteq> e \<Longrightarrow> org m' k = org m k" "node_ctr m' = node_ctr m"
    "edge_ctr m' = edge_ctr m" "\<And>k. edge_id k \<noteq> e \<Longrightarrow> par m' k = par m k"
proof -
  let ?mB = "rem_side (He e True) (rem_side (He e False) m)"
  from remove_edge_success[OF assms(2)] assms(1) obtain n1 n2 where
    s: "vh m (He e False)" "org m (He e False) = Some n1" "org m (He e True) = Some n2"
      "m' = rem_links e ?mB"
    by blast
  have iB: "mesh_inv ?mB" using assms(1) by (simp add: inv_rem_side)
  have sB: "vh ?mB (He e False)" "org ?mB (He e False) = Some n1" "org ?mB (He e True) = Some n2"
    using s by (simp_all add: rem_side_reads)
  note r = inv_rem_links[OF iB sB]
  show "mesh_inv m'" using r(1) s(4) by simp
  show "vh m' k \<longleftrightarrow> edge_id k \<noteq> e \<and> vh m k" for k
    using r(2) s(4) by (simp add: rem_side_reads)
  show "vn m' = vn m" using r(6) s(4) by (simp add: rem_side_reads)
  show "org m' k = org m k" if "edge_id k \<noteq> e" for k
    using r(3)[OF that] s(4) by (simp add: rem_side_reads)
  show "node_ctr m' = node_ctr m" "edge_ctr m' = edge_ctr m"
    using r(10,11) s(4) by (simp_all add: rem_side_reads)
  show "par m' k = par m k" if "edge_id k \<noteq> e" for k
    using r(5)[OF that] s(4) by (simp add: rem_side_reads)
qed


subsection \<open>Making two halfedges adjacent\<close>

lemma walk_prefix:
  "path f x L y \<Longrightarrow> path f x A g \<Longrightarrow> s \<in> set L \<Longrightarrow> \<forall>a\<in>set A. f a \<noteq> s \<Longrightarrow> x \<noteq> s \<Longrightarrow>
     \<exists>R. L = A @ g # R \<and> s \<in> set R"
proof (induction A arbitrary: x L)
  case Nil
  then show ?case by (cases L) auto
next
  case (Cons a A)
  from Cons.prems obtain L' where L: "L = x # L'" by (cases L) auto
  from Cons.prems L have "path f (f x) L' y" "path f (f x) A g" "s \<in> set L'"
      "\<forall>a\<in>set A. f a \<noteq> s" "f x \<noteq> s" "a = x"
    by auto
  from Cons.IH[OF this(1-5)] L \<open>a = x\<close> show ?case by auto
qed

lemma cyc_exchange:
  assumes "cyc f (A @ [g] @ B @ [i] @ C @ [d])"
    and "f' g = f i" "f' i = f d" "f' d = f g"
    and same: "\<And>z. z \<in> set A \<union> set B \<union> set C \<Longrightarrow> f' z = f z"
  shows "cyc f' (A @ [g] @ C @ [d] @ B @ [i])"
proof -
  define x0 where "x0 = hd (A @ [g])"
  have hd1: "hd (A @ [g] @ B @ [i] @ C @ [d]) = x0" by (cases A) (simp_all add: x0_def)
  have hd2: "hd (A @ [g] @ C @ [d] @ B @ [i]) = x0" by (cases A) (simp_all add: x0_def)
  from assms(1) have d: "distinct (A @ [g] @ B @ [i] @ C @ [d])"
    and p: "path f x0 (A @ [g] @ B @ [i] @ C @ [d]) x0"
    unfolding cyc_def hd1 by simp_all
  from p have pA: "path f x0 A g" and pB: "path f (f g) B i" and pC: "path f (f i) C d"
    and fd: "f d = x0"
    by (auto simp: path_append)
  have "path f' x0 A g = path f x0 A g" by (intro path_cong same) simp
  moreover have "path f' (f g) B i = path f (f g) B i" by (intro path_cong same) simp
  moreover have "path f' (f i) C d = path f (f i) C d" by (intro path_cong same) simp
  ultimately have "path f' x0 (A @ [g] @ C @ [d] @ B @ [i]) x0"
    using pA pB pC fd assms(2-4) by (auto simp: path_append)
  moreover have "distinct (A @ [g] @ C @ [d] @ B @ [i])" using d by auto
  ultimately show ?thesis unfolding cyc_def hd2 by simp
qed

text \<open>The mesh after the six assignments of \<^verbatim>\<open>make_adjacent\<close>, where \<open>g\<close> is the free
  incident halfedge that was found.\<close>

definition adj :: "halfedge_handle \<Rightarrow> halfedge_handle \<Rightarrow> halfedge_handle \<Rightarrow> mesh \<Rightarrow> mesh" where
  "adj i out g m =
     w_prev (nxt m g) (prv m out) (w_next (prv m out) (nxt m g)
       (w_prev (nxt m i) g (w_next g (nxt m i) (w_prev out i (w_next i out m)))))"

lemma adj_reads:
  assumes "vh m i" "vh m out" "vh m g" "vh m (nxt m i)" "vh m (prv m out)" "vh m (nxt m g)"
  shows "vh (adj i out g m) = vh m" "vn (adj i out g m) = vn m" "vf (adj i out g m) = vf m"
    "par (adj i out g m) = par m" "fac (adj i out g m) = fac m"
    "org (adj i out g m) = org m" "nhe (adj i out g m) = nhe m" "fhe (adj i out g m) = fhe m"
    "node_ctr (adj i out g m) = node_ctr m" "edge_ctr (adj i out g m) = edge_ctr m"
    "face_ctr (adj i out g m) = face_ctr m"
    "nxt (adj i out g m) = (nxt m)(i := out, g := nxt m i, prv m out := nxt m g)"
    "prv (adj i out g m) = (prv m)(out := i, nxt m i := g, nxt m g := prv m out)"
  using assms by (auto simp: adj_def fun_eq_iff)

lemma make_adjacent_success:
  assumes "make_adjacent i out m = Some (Inr r, m')"
  shows "r \<and> vh m i \<and>
    (nxt m i = out \<and> m' = m \<or>
     nxt m i \<noteq> out \<and> vh m out \<and> vh m (par m out) \<and> vh m (par m (par m out)) \<and>
       vh m (par m i) \<and> org m (par m (par m out)) = org m (par m i) \<and>
       (\<exists>g A. path (sig m) (par m out) A g \<and> (\<forall>a\<in>set A. inner m a \<and> sig m a \<noteq> i) \<and>
          vh m g \<and> fac m g = None \<and> vh m (nxt m i) \<and> vh m (prv m out) \<and> vh m (nxt m g) \<and>
          m' = adj i out g m))"
proof -
  from assms have i: "vh m i"
    by (auto simp: make_adjacent_def exec split: if_splits)
  show ?thesis
  proof (cases "nxt m i = out")
    case True
    with assms i show ?thesis by (auto simp: make_adjacent_def exec)
  next
    case False
    from assms i False have v: "vh m out" "vh m (par m out)" "vh m (par m (par m out))"
        "vh m (par m i)" "org m (par m (par m out)) = org m (par m i)"
      by (auto simp: make_adjacent_def find_free_incident_halfedge_h_def exec split: if_splits)
    from assms i False v obtain y where y: "ffih_loop i (par m out) m = Some y"
      by (auto simp: make_adjacent_def find_free_incident_halfedge_h_def exec
          split: if_splits option.splits)
    from ffih_cases[OF y] have sy: "snd y = m" by simp
    from assms i False v y sy obtain g where g: "y = (Inr g, m)"
      by (cases y; cases "fst y")
        (auto simp: make_adjacent_def find_free_incident_halfedge_h_def exec)
    from ffih_cases[OF y] g obtain A where A: "vh m g" "fac m g = None"
        "path (sig m) (par m out) A g" "\<forall>a\<in>set A. inner m a \<and> sig m a \<noteq> i"
      by auto
    from assms i False v y g A(1) have rest: "r \<and> vh m (nxt m i) \<and> vh m (prv m out) \<and>
        vh m (nxt m g) \<and> m' = adj i out g m"
      by (auto simp: make_adjacent_def find_free_incident_halfedge_h_def exec adj_def
          split: if_splits)
    with i False v A show ?thesis by blast
  qed
qed


lemma adj_position:
  assumes "mesh_inv m" "vh m i" "vh m out" "nxt m i \<noteq> out" "i \<noteq> par m out"
    "org m out = Some n" "org m (par m i) = Some n"
    "path (sig m) (par m out) A g" "\<forall>a\<in>set A. sig m a \<noteq> i"
  shows "\<exists>B C. cyc (sig m) (A @ [g] @ B @ [i] @ C @ [prv m out]) \<and>
    set (A @ [g] @ B @ [i] @ C @ [prv m out]) = incoming m n"
proof -
  note iv = invD[OF assms(1)]
  let ?op = "par m out" and ?d = "prv m out"
  have op: "?op \<in> incoming m n"
    using assms(3,6) iv(2) by (simp add: incoming_def vh_par par_par)
  have i: "i \<in> incoming m n" using assms(2,7) by (simp add: incoming_def)
  have vd: "vh m ?d" using iv(1) assms(3) by (rule vh_prv)
  have nd: "nxt m ?d = out" using iv(3) assms(3) by (rule nxt_prv)
  have d: "?d \<in> incoming m n"
    using vd org_nxt[OF iv(4) vd] nd assms(6) by (simp add: incoming_def)
  have sd: "sig m ?d = ?op" by (simp add: sig_def nd)
  have id: "i \<noteq> ?d" using nd assms(4) by auto
  from iv(10) obtain xs where xs: "cyc (sig m) xs" "set xs = incoming m n"
    unfolding fan_def by blast
  have "?op \<in> set xs" using op xs(2) by simp
  from cyc_to_first[OF xs(1) this] obtain ys where ys: "cyc (sig m) (?op # ys)"
      "set (?op # ys) = incoming m n"
    unfolding xs(2) by blast
  from ys(1) have dist: "distinct (?op # ys)" and p: "path (sig m) ?op (?op # ys) ?op"
    by (simp_all add: cyc_def)
  have "i \<in> set (?op # ys)" using i ys(2) by simp
  from walk_prefix[OF p assms(8) this assms(9) assms(5)[symmetric]] obtain R
    where R: "?op # ys = A @ g # R" "i \<in> set R"
    by blast
  then obtain R' l where l: "R = R' @ [l]" by (cases R rule: rev_cases) auto
  have "path (sig m) ?op ((A @ g # R') @ [l]) ?op" using p R(1) l by simp
  then have "sig m l = ?op" by (rule path_last)
  moreover have "l \<in> incoming m n" using ys(2) R(1) l by auto
  then have "vh m l" by (simp add: incoming_def)
  ultimately have ld: "l = ?d" using sd vd sig_inj[OF iv(1-3), of l ?d] by simp
  from R(2) l ld id have "i \<in> set R'" by auto
  then obtain B C where "R' = B @ i # C" by (auto simp: in_set_conv_decomp)
  with R(1) l ld have "?op # ys = A @ [g] @ B @ [i] @ C @ [?d]" by simp
  with ys show ?thesis by metis
qed

lemma inv_adj:
  assumes "mesh_inv m" "vh m i" "vh m out" "nxt m i \<noteq> out" "i \<noteq> par m out"
    "org m out = Some n" "org m (par m i) = Some n"
    "path (sig m) (par m out) A g" "\<forall>a\<in>set A. sig m a \<noteq> i"
  shows "mesh_inv (adj i out g m)" "g \<noteq> i" "g \<noteq> prv m out" "vh m g"
proof -
  note iv = invD[OF assms(1)]
  let ?b = "nxt m i" and ?d = "prv m out" and ?h = "nxt m g"
  let ?m' = "adj i out g m"
  from adj_position[OF assms] obtain B C where
    c: "cyc (sig m) (A @ [g] @ B @ [i] @ C @ [?d])"
    and s: "set (A @ [g] @ B @ [i] @ C @ [?d]) = incoming m n"
    by blast
  from c have dist: "distinct (A @ [g] @ B @ [i] @ C @ [?d])" by (simp add: cyc_def)
  from dist show gi: "g \<noteq> i" by auto
  from dist show gd: "g \<noteq> ?d" by auto
  from dist have id: "i \<noteq> ?d" by auto
  have g_in: "g \<in> incoming m n" using s by auto
  then show g: "vh m g" by (simp add: incoming_def)
  have og: "org m (par m g) = Some n" using g_in by (simp add: incoming_def)
  have vb: "vh m ?b" using iv(1) assms(2) by (rule vh_nxt)
  have vd: "vh m ?d" using iv(1) assms(3) by (rule vh_prv)
  have vhh: "vh m ?h" using iv(1) g by (rule vh_nxt)
  have nd: "nxt m ?d = out" using iv(3) assms(3) by (rule nxt_prv)
  have pb: "prv m ?b = i" using iv(3) assms(2) by (rule prv_nxt)
  have ph: "prv m ?h = g" using iv(3) g by (rule prv_nxt)
  have ob: "org m ?b = Some n" using org_nxt[OF iv(4) assms(2)] assms(7) by simp
  have oh: "org m ?h = Some n" using org_nxt[OF iv(4) g] og by simp
  have bh: "?b \<noteq> ?h" using pb ph gi by auto
  have bo: "?b \<noteq> out" using assms(4) .
  have ho: "?h \<noteq> out" using ph gd by auto
  note r = adj_reads[OF assms(2,3) g vb vd vhh]
  have nxt_out_iff: "nxt m k = out \<longleftrightarrow> k = ?d" if "vh m k" for k
    using nxt_eq_iff[OF iv(3) that assms(3)] by simp
  have nxt_b_iff: "nxt m k = ?b \<longleftrightarrow> k = i" if "vh m k" for k
    using nxt_eq_iff[OF iv(3) that vb] pb by simp
  have nxt_h_iff: "nxt m k = ?h \<longleftrightarrow> k = g" if "vh m k" for k
    using nxt_eq_iff[OF iv(3) that vhh] ph by simp
  have prv_i_iff: "prv m k = i \<longleftrightarrow> k = ?b" if "vh m k" for k
    using prv_eq_iff[OF iv(3) that assms(2)] by simp
  have prv_g_iff: "prv m k = g \<longleftrightarrow> k = ?h" if "vh m k" for k
    using prv_eq_iff[OF iv(3) that g] by simp
  have prv_d_iff: "prv m k = ?d \<longleftrightarrow> k = out" if "vh m k" for k
    using prv_eq_iff[OF iv(3) that vd] nd by simp
  show "mesh_inv ?m'"
    unfolding mesh_inv_def
  proof (intro conjI, goal_cases)
    case 1 show ?case using iv(1) assms(2,3) g vb vd vhh
      by (auto simp: links_closed_def r)
  next
    case 2 show ?case using iv(2) by (simp add: pair_ok_def r)
  next
    case 3
    show ?case
      unfolding next_prev_def r
    proof (intro allI impI conjI)
      fix k assume k: "vh m k"
      show "((prv m)(out := i, ?b := g, ?h := ?d)) (((nxt m)(i := out, g := ?b, ?d := ?h)) k) = k"
        using k gi gd id bh bo ho nxt_out_iff[OF k] nxt_b_iff[OF k] nxt_h_iff[OF k]
          prv_nxt[OF iv(3) k]
        by auto
      show "((nxt m)(i := out, g := ?b, ?d := ?h)) (((prv m)(out := i, ?b := g, ?h := ?d)) k) = k"
        using k gi gd id bh bo ho prv_i_iff[OF k] prv_g_iff[OF k] prv_d_iff[OF k]
          nxt_prv[OF iv(3) k]
        by auto
    qed
  next
    case 4
    show ?case
      unfolding origin_coh_def r
    proof (intro allI impI)
      fix k assume k: "vh m k"
      show "org m (((nxt m)(i := out, g := ?b, ?d := ?h)) k) = org m (par m k)"
        using k org_nxt[OF iv(4) k] org_nxt[OF iv(4) vd] nd assms(6,7) og ob oh
        by auto
    qed
  next
    case 5 show ?case using iv(5) by (simp add: origin_valid_def r)
  next
    case 6 show ?case using iv(6) by (simp add: no_loop_def r)
  next
    case 7
    show ?case
      unfolding unattached_ok_def r
    proof (intro allI impI)
      fix k assume k: "vh m k" and "org m k = None"
      with assms(6) ob oh have "k \<noteq> out" "k \<noteq> ?b" "k \<noteq> ?h" by auto
      then show "((prv m)(out := i, ?b := g, ?h := ?d)) k = par m k"
        using iv(7) k \<open>org m k = None\<close> by (simp add: unattached_ok_def)
    qed
  next
    case 8 show ?case using iv(8) by (simp add: node_he_def r)
  next
    case 9 show ?case using iv(9) by (simp add: fresh_ok_def r)
  next
    case 10
    have sig': "sig ?m' = (sig m)(i := par m out, g := sig m i, ?d := sig m g)"
      by (auto simp: sig_def r fun_eq_iff)
    have sd: "sig m ?d = par m out" by (simp add: sig_def nd)
    have inc: "incoming ?m' = incoming m" by (rule incoming_eqI) (simp_all add: r)
    have dn: "?d \<in> incoming m n" and i_n: "i \<in> incoming m n" using s by auto
    show ?case
      unfolding fan_def inc
    proof
      fix k
      show "\<exists>xs. cyc (sig ?m') xs \<and> set xs = incoming m k"
      proof (cases "k = n")
        case False
        from iv(10) obtain xs where xs: "cyc (sig m) xs" "set xs = incoming m k"
          unfolding fan_def by blast
        have "g \<notin> set xs" "i \<notin> set xs" "?d \<notin> set xs"
          using xs(2) g_in dn i_n False incoming_disjoint by blast+
        then have "cyc (sig ?m') xs = cyc (sig m) xs"
          by (intro cyc_cong) (auto simp: sig')
        with xs show ?thesis by blast
      next
        case True
        have "cyc (sig ?m') (A @ [g] @ C @ [?d] @ B @ [i])"
        proof (rule cyc_exchange[OF c])
          show "sig ?m' g = sig m i" using gd by (simp add: sig')
          show "sig ?m' i = sig m ?d" using gi id by (simp add: sig' sd)
          show "sig ?m' ?d = sig m g" by (simp add: sig')
          show "sig ?m' z = sig m z" if "z \<in> set A \<union> set B \<union> set C" for z
          proof -
            from that dist have "z \<noteq> g" "z \<noteq> i" "z \<noteq> ?d" by auto
            then show ?thesis by (simp add: sig')
          qed
        qed
        moreover have "set (A @ [g] @ C @ [?d] @ B @ [i]) = incoming m k"
          using s True by auto
        ultimately show ?thesis by blast
      qed
    qed
  qed
qed


subsection \<open>Well-formed meshes\<close>

text \<open>A mesh is well formed when it satisfies the invariant and every halfedge has an
  origin.  An operation keeps well-formedness when each of its successful runs from a
  well-formed mesh ends in one.\<close>

definition wellformed :: "mesh \<Rightarrow> bool" where
  "wellformed m \<longleftrightarrow> mesh_inv m \<and> all_attached m"

definition keeps :: "'a M \<Rightarrow> bool" where
  "keeps f \<longleftrightarrow> (\<forall>m r m'. wellformed m \<longrightarrow> f m = Some (Inr r, m') \<longrightarrow> wellformed m')"

lemma wellformed_empty: "wellformed empty_mesh"
  by (simp add: wellformed_def inv_empty all_attached_def)

lemma keepsD: "keeps f \<Longrightarrow> wellformed m \<Longrightarrow> f m = Some (Inr r, m') \<Longrightarrow> wellformed m'"
  unfolding keeps_def by blast

lemma keeps_bnd: "keeps f \<Longrightarrow> (\<And>a. keeps (g a)) \<Longrightarrow> keeps (bnd f g)"
  unfolding keeps_def bnd_eq_Inr by blast

lemma keeps_ret: "keeps (ret x)"
  by (simp add: keeps_def ret_def)

lemma keeps_add_node: "keeps (add_node p)"
  unfolding keeps_def
proof (intro allI impI)
  fix m r m' assume w: "wellformed m" and a: "add_node p m = Some (Inr r, m')"
  from a have m': "m' = w_pos (node_ctr m) p (new_node m)"
    by (auto simp: add_node_def exec split: if_splits)
  have "all_attached m'" using w by (simp add: m' wellformed_def all_attached_def)
  moreover have "mesh_inv m'" using w unfolding m' wellformed_def by (intro inv_new_node) simp
  ultimately show "wellformed m'" by (simp add: wellformed_def)
qed

lemma keeps_add_edge: "keeps (add_edge a b)"
  unfolding keeps_def wellformed_def
  using inv_add_edge all_attached_add_edge by blast

lemma keeps_remove_edge: "keeps (remove_edge e)"
  unfolding keeps_def
proof (intro allI impI)
  fix m r m' assume w: "wellformed m" and a: "remove_edge e m = Some (Inr r, m')"
  then have i: "mesh_inv m" by (simp add: wellformed_def)
  note r = inv_remove_edge[OF i a]
  have "all_attached m'"
    unfolding all_attached_def
  proof (intro allI impI)
    fix k assume "vh m' k"
    then have "edge_id k \<noteq> e" "vh m k" by (simp_all add: r(2))
    then show "org m' k \<noteq> None" using w r(4)[of k] by (simp add: wellformed_def all_attached_def)
  qed
  with r(1) show "wellformed m'" by (simp add: wellformed_def)
qed

lemma keeps_remove_face: "keeps (remove_face f)"
  unfolding keeps_def
proof (intro allI impI)
  fix m r m' assume w: "wellformed m" and a: "remove_face f m = Some (Inr r, m')"
  from remove_face_success[OF a] have m': "m' = rem_face f m" by simp
  show "wellformed m'" using w by (simp add: m' wellformed_def inv_rem_face all_attached_def rem_face_reads)
qed


section \<open>The link surgery of \<^verbatim>\<open>make_adjacent\<close>\<close>

text \<open>A centre node with three edges.\<close>

definition build_star :: "halfedge_handle M" where
  "build_star =
     bnd (add_node (pt 0 0)) (\<lambda>c. bnd (add_node (pt 1 0)) (\<lambda>a. bnd (add_node (pt 0 1)) (\<lambda>b.
     bnd (add_node (pt 1 1)) (\<lambda>d.
     bnd (add_edge c a) (\<lambda>_. bnd (add_edge c b) (\<lambda>_. add_edge c d))))))"

text \<open>
  In a well-formed mesh, for live halfedges \<open>he_in\<close> and \<open>he_out\<close> with
  \<open>in.pair.origin = out.origin\<close> and \<open>he_in \<noteq> out.pair\<close>: when \<open>in.next = out\<close> the call
  returns \<open>true\<close> and the mesh is unchanged.  Otherwise, when the walk from \<open>out.pair\<close>
  bounded by \<open>he_in\<close> finds \<open>g\<close>, the call returns \<open>true\<close>; with \<open>b\<close> the old \<open>in.next\<close>, \<open>d\<close>
  the old \<open>out.prev\<close> and \<open>h\<close> the old \<open>g.next\<close>, the next and prev links are the old ones
  after the assignments \<open>in.next = out\<close>, \<open>g.next = b\<close>, \<open>d.next = h\<close> and \<open>out.prev = in\<close>,
  \<open>b.prev = g\<close>, \<open>h.prev = d\<close>, all six of which hold in the result, and nothing else is
  changed.  When the walk throws, so does the call, and the mesh is unchanged.  There the
  halfedges \<open>he_in\<close>, \<open>g\<close> and \<open>d\<close> are three different halfedges of one cycle around the
  origin of \<open>he_out\<close>.
\<close>

lemma make_adjacent_links:
  assumes "wellformed m" "vh m he_in" "vh m he_out" "org m (par m he_in) = org m he_out"
    "he_in \<noteq> par m he_out"
  shows "(nxt m he_in = he_out \<longrightarrow> make_adjacent he_in he_out m = Some (Inr True, m)) \<and>
    (nxt m he_in \<noteq> he_out \<longrightarrow>
      (\<forall>g m1. find_free_incident_halfedge_h (par m he_out) he_in m = Some (Inr g, m1) \<longrightarrow>
        (\<exists>m'. make_adjacent he_in he_out m = Some (Inr True, m') \<and>
          nxt m' = (nxt m)(he_in := he_out, g := nxt m he_in, prv m he_out := nxt m g) \<and>
          prv m' = (prv m)(he_out := he_in, nxt m he_in := g, nxt m g := prv m he_out) \<and>
          nxt m' he_in = he_out \<and> prv m' he_out = he_in \<and>
          nxt m' g = nxt m he_in \<and> prv m' (nxt m he_in) = g \<and>
          nxt m' (prv m he_out) = nxt m g \<and> prv m' (nxt m g) = prv m he_out \<and>
          org m' = org m \<and> par m' = par m \<and> fac m' = fac m \<and> vh m' = vh m \<and>
          nhe m' = nhe m \<and> fhe m' = fhe m \<and> vn m' = vn m \<and> vf m' = vf m \<and> wellformed m')) \<and>
      (\<forall>e m1. find_free_incident_halfedge_h (par m he_out) he_in m = Some (Inl e, m1) \<longrightarrow>
        make_adjacent he_in he_out m = Some (Inl e, m)))"
proof (intro conjI impI allI)
  assume "nxt m he_in = he_out"
  then show "make_adjacent he_in he_out m = Some (Inr True, m)"
    using assms(2) by (simp add: make_adjacent_def exec)
next
  note iv = assms(1)[unfolded wellformed_def, THEN conjunct1]
  note ivd = invD[OF iv]
  have vp: "vh m (par m he_out)" "vh m (par m he_in)" "par m (par m he_out) = he_out"
    using ivd(2) assms(2,3) by (simp_all add: vh_par par_par)
  have vb: "vh m (nxt m he_in)" and vd: "vh m (prv m he_out)"
    using ivd(1) assms(2,3) by (simp_all add: vh_nxt vh_prv)
  {
    fix e m1
    assume ne: "nxt m he_in \<noteq> he_out"
      and ff: "find_free_incident_halfedge_h (par m he_out) he_in m = Some (Inl e, m1)"
    from ff vp assms(2-4) have l: "ffih_loop he_in (par m he_out) m = Some (Inl e, m1)"
      by (simp add: find_free_incident_halfedge_h_def exec)
    from ffih_cases[OF l] have "m1 = m" by simp
    with ff ne assms(2,3) vp vb vd show "make_adjacent he_in he_out m = Some (Inl e, m)"
      by (simp add: make_adjacent_def exec)
  }
  fix g m1
  assume ne: "nxt m he_in \<noteq> he_out"
    and ff: "find_free_incident_halfedge_h (par m he_out) he_in m = Some (Inr g, m1)"
  from ff vp assms(2-4) have l: "ffih_loop he_in (par m he_out) m = Some (Inr g, m1)"
    by (simp add: find_free_incident_halfedge_h_def exec)
  from ffih_cases[OF l] obtain A where A: "m1 = m" "vh m g" "fac m g = None"
      "path (sig m) (par m he_out) A g" "\<forall>a\<in>set A. sig m a \<noteq> he_in"
    by auto
  from assms(1,3) obtain n where n: "org m he_out = Some n"
    by (auto simp: wellformed_def all_attached_def)
  have n': "org m (par m he_in) = Some n" using assms(4) n by simp
  note ia = inv_adj[OF iv assms(2,3) ne assms(5) n n' A(4,5)]
  have vh': "vh m (nxt m g)" using ivd(1) A(2) by (rule vh_nxt)
  note r = adj_reads[OF assms(2,3) A(2) vb vd vh']
  have nd: "nxt m (prv m he_out) = he_out" using ivd(3) assms(3) by (rule nxt_prv)
  have pb: "prv m (nxt m he_in) = he_in" using ivd(3) assms(2) by (rule prv_nxt)
  have ph: "prv m (nxt m g) = g" using ivd(3) A(2) by (rule prv_nxt)
  have id: "he_in \<noteq> prv m he_out" using nd ne by auto
  have bh: "nxt m he_in \<noteq> nxt m g" using pb ph ia(2) by auto
  have ho: "nxt m g \<noteq> he_out" using ph ia(3) by auto
  have run: "make_adjacent he_in he_out m = Some (Inr True, adj he_in he_out g m)"
    using ff ne assms(2,3) vp vb vd vh' A(1,2)
    by (simp add: make_adjacent_def exec adj_def)
  have w: "wellformed (adj he_in he_out g m)"
    using ia(1) assms(1) by (simp add: wellformed_def all_attached_def r)
  show "\<exists>m'. make_adjacent he_in he_out m = Some (Inr True, m') \<and>
          nxt m' = (nxt m)(he_in := he_out, g := nxt m he_in, prv m he_out := nxt m g) \<and>
          prv m' = (prv m)(he_out := he_in, nxt m he_in := g, nxt m g := prv m he_out) \<and>
          nxt m' he_in = he_out \<and> prv m' he_out = he_in \<and>
          nxt m' g = nxt m he_in \<and> prv m' (nxt m he_in) = g \<and>
          nxt m' (prv m he_out) = nxt m g \<and> prv m' (nxt m g) = prv m he_out \<and>
          org m' = org m \<and> par m' = par m \<and> fac m' = fac m \<and> vh m' = vh m \<and>
          nhe m' = nhe m \<and> fhe m' = fhe m \<and> vn m' = vn m \<and> vf m' = vf m \<and> wellformed m'"
    using run w ia(2,3) id bh ho ne
    by (intro exI[of _ "adj he_in he_out g m"]) (simp add: r)
qed

lemma keeps_build_star: "keeps build_star"
  unfolding build_star_def by (intro keeps_bnd keeps_add_node keeps_add_edge)

lemma star_facts:
  "\<exists>M. build_star empty_mesh = Some (Inr (He 2 False), M) \<and>
      vh M (He 0 True) \<and> vh M (He 1 False) \<and> par M (He 0 True) = He 0 False \<and>
      par M (He 1 False) = He 1 True \<and> org M (He 0 False) = Some 0 \<and>
      org M (He 1 False) = Some 0 \<and> nxt M (He 0 True) = He 2 False \<and>
      prv M (He 1 False) = He 2 True \<and> nxt M (He 1 True) = He 0 False \<and>
      find_free_incident_halfedge_h (He 1 True) (He 0 True) M = Some (Inr (He 1 True), M)"
  by (simp add: run build_star_def)

lemma make_adjacent_links_example:
  "\<exists>m'. make_adjacent (He 0 True) (He 1 False) (after build_star) = Some (Inr True, m') \<and>
     nxt m' (He 0 True) = He 1 False \<and> prv m' (He 1 False) = He 0 True \<and>
     nxt m' (He 1 True) = He 2 False \<and> prv m' (He 2 False) = He 1 True \<and>
     nxt m' (He 2 True) = He 0 False \<and> prv m' (He 0 False) = He 2 True"
proof -
  from star_facts obtain M where M: "build_star empty_mesh = Some (Inr (He 2 False), M)"
    "vh M (He 0 True)" "vh M (He 1 False)" "par M (He 0 True) = He 0 False"
    "par M (He 1 False) = He 1 True" "org M (He 0 False) = Some 0"
    "org M (He 1 False) = Some 0" "nxt M (He 0 True) = He 2 False"
    "prv M (He 1 False) = He 2 True" "nxt M (He 1 True) = He 0 False"
    "find_free_incident_halfedge_h (He 1 True) (He 0 True) M = Some (Inr (He 1 True), M)"
    by (elim exE conjE) (rule that; assumption)
  have a: "after build_star = M" using M(1) by (rule after_eq)
  have w: "wellformed M" using keepsD[OF keeps_build_star wellformed_empty M(1)] .
  have "org M (par M (He 0 True)) = org M (He 1 False)" "He 0 True \<noteq> par M (He 1 False)"
    using M(4-7) by simp_all
  note inst = make_adjacent_links[OF w M(2,3) this, THEN conjunct2]
  have "nxt M (He 0 True) \<noteq> He 1 False" using M(8) by simp
  from inst[THEN mp, OF this, THEN conjunct1, THEN spec, THEN spec, of "He 1 True" M,
      unfolded M(5), THEN mp, OF M(11)]
  obtain m' where m': "make_adjacent (He 0 True) (He 1 False) M = Some (Inr True, m')"
      "nxt m' (He 0 True) = He 1 False" "prv m' (He 1 False) = He 0 True"
      "nxt m' (He 1 True) = nxt M (He 0 True)" "prv m' (nxt M (He 0 True)) = He 1 True"
      "nxt m' (prv M (He 1 False)) = nxt M (He 1 True)"
      "prv m' (nxt M (He 1 True)) = prv M (He 1 False)"
    by (elim exE conjE) (rule that; assumption)
  then show ?thesis unfolding a M(8-10) by (intro exI[of _ m']) simp
qed


subsection \<open>Adding a face\<close>

lemma wellformed_make_adjacent:
  assumes "wellformed m" "make_adjacent i out m = Some (Inr r, m')" "vh m out"
    "org m (par m i) = org m out" "i \<noteq> par m out"
  shows "wellformed m'" "vh m' = vh m" "vn m' = vn m" "vf m' = vf m" "par m' = par m"
    "fac m' = fac m" "org m' = org m" "nhe m' = nhe m" "fhe m' = fhe m"
    "node_ctr m' = node_ctr m" "edge_ctr m' = edge_ctr m" "face_ctr m' = face_ctr m"
    "nxt m' i = out"
proof -
  note iv = assms(1)[unfolded wellformed_def, THEN conjunct1]
  note s = make_adjacent_success[OF assms(2)]
  then have i: "vh m i" by simp
  have "wellformed m' \<and> vh m' = vh m \<and> vn m' = vn m \<and> vf m' = vf m \<and> par m' = par m \<and>
    fac m' = fac m \<and> org m' = org m \<and> nhe m' = nhe m \<and> fhe m' = fhe m \<and>
    node_ctr m' = node_ctr m \<and> edge_ctr m' = edge_ctr m \<and> face_ctr m' = face_ctr m \<and>
    nxt m' i = out"
  proof (cases "nxt m i = out")
    case True
    with s assms(1) show ?thesis by auto
  next
    case False
    with s obtain g A where g: "path (sig m) (par m out) A g" "\<forall>a\<in>set A. sig m a \<noteq> i"
        "vh m g" "vh m (nxt m i)" "vh m (prv m out)" "vh m (nxt m g)" "m' = adj i out g m"
      by auto
    from assms(1,3) obtain n where n: "org m out = Some n"
      by (auto simp: wellformed_def all_attached_def)
    have n': "org m (par m i) = Some n" using assms(4) n by simp
    note ia = inv_adj[OF iv i assms(3) False assms(5) n n' g(1,2)]
    note r = adj_reads[OF i assms(3) g(3-6)]
    have nd: "nxt m (prv m out) = out" using invD(3)[OF iv] assms(3) by (rule nxt_prv)
    have "i \<noteq> prv m out" using nd False by auto
    then have "nxt m' i = out" using ia(2) by (simp add: g(7) r)
    moreover have "wellformed m'"
      using ia(1) assms(1) by (simp add: g(7) wellformed_def all_attached_def r)
    ultimately show ?thesis by (simp add: g(7) r)
  qed
  then show "wellformed m'" "vh m' = vh m" "vn m' = vn m" "vf m' = vf m" "par m' = par m"
    "fac m' = fac m" "org m' = org m" "nhe m' = nhe m" "fhe m' = fhe m"
    "node_ctr m' = node_ctr m" "edge_ctr m' = edge_ctr m" "face_ctr m' = face_ctr m"
    "nxt m' i = out"
    by simp_all
qed

text \<open>The mesh after the last five statements of \<^verbatim>\<open>add_face\<close>.\<close>

definition fin_face ::
  "halfedge_handle \<Rightarrow> halfedge_handle \<Rightarrow> halfedge_handle \<Rightarrow> mesh \<Rightarrow> mesh" where
  "fin_face h1 h2 h3 m =
     w_face h3 (Some (face_ctr m)) (w_face h2 (Some (face_ctr m)) (w_face h1 (Some (face_ctr m))
       (w_fhe (face_ctr m) (Some h1) (new_face m))))"

lemma fin_face_reads:
  "vh (fin_face h1 h2 h3 m) = vh m" "vn (fin_face h1 h2 h3 m) = vn m"
  "org (fin_face h1 h2 h3 m) = org m" "par (fin_face h1 h2 h3 m) = par m"
  "nxt (fin_face h1 h2 h3 m) = nxt m" "prv (fin_face h1 h2 h3 m) = prv m"
  "nhe (fin_face h1 h2 h3 m) = nhe m" "node_ctr (fin_face h1 h2 h3 m) = node_ctr m"
  "edge_ctr (fin_face h1 h2 h3 m) = edge_ctr m"
  "face_ctr (fin_face h1 h2 h3 m) = Suc (face_ctr m)"
  "vf (fin_face h1 h2 h3 m) k \<longleftrightarrow> k = face_ctr m \<or> vf m k"
  by (auto simp: fin_face_def fun_eq_iff)

lemma add_face_success:
  assumes "add_face h1 h2 h3 m = Some (Inr f, m')"
  shows "vh m h1 \<and> vh m h2 \<and> vh m h3 \<and> fac m h1 = None \<and> fac m h2 = None \<and> fac m h3 = None \<and>
    vh m (par m h1) \<and> vh m (par m h2) \<and> vh m (par m h3) \<and>
    org m (par m h1) = org m h2 \<and> org m (par m h2) = org m h3 \<and> org m (par m h3) = org m h1 \<and>
    (\<exists>m1 m2 m3. make_adjacent h1 h2 m = Some (Inr True, m1) \<and>
       make_adjacent h2 h3 m1 = Some (Inr True, m2) \<and>
       make_adjacent h3 h1 m2 = Some (Inr True, m3) \<and>
       (vh m3 h1 \<and> vh m3 h2 \<and> vh m3 h3 \<longrightarrow> f = face_ctr m3 \<and> m' = fin_face h1 h2 h3 m3))"
proof -
  from assms have free: "and_also (is_boundary h1) (and_also (is_boundary h2) (is_boundary h3)) m
      = Some (Inr True, m)"
    by (auto simp: add_face_def bnd_eq_Inr and_also_def is_boundary_eq ret_def throw_def
        split: if_splits)
  then have v: "vh m h1" "vh m h2" "vh m h3" "fac m h1 = None" "fac m h2 = None" "fac m h3 = None"
    by (auto simp: bnd_eq_Inr and_also_def is_boundary_eq ret_def split: if_splits)
  from assms free have chain: "and_also (chained h1 h2) (and_also (chained h2 h3) (chained h3 h1)) m
      = Some (Inr True, m)"
    by (auto simp: add_face_def bnd_eq_Inr and_also_def chained_def get_pair_eq get_origin_eq
        ret_def throw_def split: if_splits)
  then have c: "vh m (par m h1)" "vh m (par m h2)" "vh m (par m h3)"
      "org m (par m h1) = org m h2" "org m (par m h2) = org m h3" "org m (par m h3) = org m h1"
    by (auto simp: bnd_eq_Inr and_also_def chained_def get_pair_eq get_origin_eq ret_def
        split: if_splits)
  from assms free chain obtain a ma where
    adj: "and_also (make_adjacent h1 h2) (and_also (make_adjacent h2 h3) (make_adjacent h3 h1)) m
      = Some (Inr a, ma)"
    and rest: "(if \<not> a then throw (FaceError NonManifold) else
     bnd get_new_face (\<lambda>f.
     bnd (face_set_halfedge f h1) (\<lambda>_.
     bnd (set_face h1 (Some f)) (\<lambda>_.
     bnd (set_face h2 (Some f)) (\<lambda>_.
     bnd (set_face h3 (Some f)) (\<lambda>_.
     ret f)))))) ma = Some (Inr f, m')"
    by (auto simp: add_face_def bnd_eq_Inr split: if_splits)
  from rest have a: "a" by (auto simp: throw_def split: if_splits)
  from adj obtain r1 m1 where 1: "make_adjacent h1 h2 m = Some (Inr r1, m1)"
    and adj2: "(if r1 then bnd (make_adjacent h2 h3)
         (\<lambda>x. if x then make_adjacent h3 h1 else ret False) else ret False) m1
       = Some (Inr a, ma)"
    by (auto simp: and_also_def bnd_eq_Inr)
  from make_adjacent_success[OF 1] have r1: "r1" by simp
  from adj2 r1 obtain r2 m2 where 2: "make_adjacent h2 h3 m1 = Some (Inr r2, m2)"
    and adj3: "(if r2 then make_adjacent h3 h1 else ret False) m2 = Some (Inr a, ma)"
    by (auto simp: bnd_eq_Inr)
  from make_adjacent_success[OF 2] have r2: "r2" by simp
  from adj3 r2 have 3: "make_adjacent h3 h1 m2 = Some (Inr a, ma)" by simp
  have fin: "f = face_ctr ma \<and> m' = fin_face h1 h2 h3 ma" if "vh ma h1" "vh ma h2" "vh ma h3"
    using rest a that
    by (auto simp: bnd_def get_new_face_eq face_set_halfedge_eq set_face_eq ret_def fin_face_def
        split: if_splits)
  have "\<exists>m1 m2 m3. make_adjacent h1 h2 m = Some (Inr True, m1) \<and>
       make_adjacent h2 h3 m1 = Some (Inr True, m2) \<and>
       make_adjacent h3 h1 m2 = Some (Inr True, m3) \<and>
       (vh m3 h1 \<and> vh m3 h2 \<and> vh m3 h3 \<longrightarrow> f = face_ctr m3 \<and> m' = fin_face h1 h2 h3 m3)"
    using 1 2 3 r1 r2 a fin by (intro exI[of _ m1] exI[of _ m2] exI[of _ ma]) simp
  with v c show ?thesis by simp
qed

lemma keeps_add_face: "keeps (add_face h1 h2 h3)"
  unfolding keeps_def
proof (intro allI impI)
  fix m f m' assume w: "wellformed m" and a: "add_face h1 h2 h3 m = Some (Inr f, m')"
  note iv = w[unfolded wellformed_def, THEN conjunct1]
  note ivd = invD[OF iv]
  from add_face_success[OF a] obtain m1 m2 m3 where
    v: "vh m h1" "vh m h2" "vh m h3"
    and c: "org m (par m h1) = org m h2" "org m (par m h2) = org m h3"
      "org m (par m h3) = org m h1"
    and s: "make_adjacent h1 h2 m = Some (Inr True, m1)"
      "make_adjacent h2 h3 m1 = Some (Inr True, m2)"
      "make_adjacent h3 h1 m2 = Some (Inr True, m3)"
      "vh m3 h1 \<and> vh m3 h2 \<and> vh m3 h3 \<longrightarrow> f = face_ctr m3 \<and> m' = fin_face h1 h2 h3 m3"
    by blast
  have att: "org m h \<noteq> None" if "vh m h" for h
    using w that by (simp add: wellformed_def all_attached_def)
  have nl: "org m (par m h) \<noteq> org m h" if "vh m h" for h
    using ivd(6) att[OF that] that by (auto simp: no_loop_def)
  have pp: "par m (par m h) = h" if "vh m h" for h using ivd(2) that by (rule par_par)
  have n12: "h1 \<noteq> par m h2" using c nl[OF v(3)] pp[OF v(2)] by auto
  have n23: "h2 \<noteq> par m h3" using c nl[OF v(1)] pp[OF v(3)] by auto
  have n31: "h3 \<noteq> par m h1" using c nl[OF v(2)] pp[OF v(1)] by auto
  note r1 = wellformed_make_adjacent[OF w s(1) v(2) c(1) n12]
  have "vh m1 h3" "org m1 (par m1 h2) = org m1 h3" "h2 \<noteq> par m1 h3"
    using v c n23 by (simp_all add: r1)
  note r2 = wellformed_make_adjacent[OF r1(1) s(2) this]
  have "vh m2 h1" "org m2 (par m2 h3) = org m2 h1" "h3 \<noteq> par m2 h1"
    using v c n31 by (simp_all add: r1 r2)
  note r3 = wellformed_make_adjacent[OF r2(1) s(3) this]
  have "vh m3 h1 \<and> vh m3 h2 \<and> vh m3 h3" using v by (simp add: r1 r2 r3)
  with s(4) have m': "m' = fin_face h1 h2 h3 m3" by simp
  have "mesh_inv m' = mesh_inv m3" unfolding m' by (rule inv_cong) (simp_all add: fin_face_reads)
  then show "wellformed m'"
    using r3(1) by (simp add: wellformed_def all_attached_def m' fin_face_reads)
qed


section \<open>Attaching a halfedge to a node\<close>

lemma path_succ_tl: "path f s L y \<Longrightarrow> z \<in> set (butlast L) \<Longrightarrow> f z \<in> set (tl L)"
proof (induction L arbitrary: s)
  case Nil
  then show ?case by simp
next
  case (Cons a L)
  then have a: "a = s" and p: "path f (f s) L y" by auto
  from Cons.prems(2) have ne: "L \<noteq> []" by (cases L) auto
  show ?case
  proof (cases "z = a")
    case True
    from p ne have "hd L = f s" by (rule path_hd)
    with ne True a show ?thesis by (metis hd_in_set list.sel(3))
  next
    case False
    with Cons.prems(2) ne have "z \<in> set (butlast L)" by simp
    from Cons.IH[OF p this] have "f z \<in> set (tl L)" .
    then have "f z \<in> set L" by (cases L) auto
    then show ?thesis by simp
  qed
qed

text \<open>The walk of \<^verbatim>\<open>find_free_incident_halfedge\<close> once around a cycle of \<open>next.pair\<close>.\<close>

lemma walk_total:
  assumes "cyc (sig m) (x0 # ys)" "\<forall>x\<in>set (x0 # ys). vh m x \<and> vh m (nxt m x)"
  shows "\<exists>g\<in>set (x0 # ys). fac m g = None \<Longrightarrow>
      \<exists>g\<in>set (x0 # ys). fac m g = None \<and> ffih_loop x0 x0 m = Some (Inr g, m)"
    and "\<forall>g\<in>set (x0 # ys). fac m g \<noteq> None \<Longrightarrow> ffih_loop x0 x0 m = Some (Inl TopologyError, m)"
proof -
  from assms(1) have d: "x0 \<notin> set ys" and p: "path (sig m) x0 (x0 # ys) x0"
    by (simp_all add: cyc_def)
  have nostop: "sig m z \<noteq> x0" if "z \<in> set (butlast (x0 # ys))" for z
    using path_succ_tl[OF p that] d by auto
  {
    assume "\<exists>g\<in>set (x0 # ys). fac m g = None"
    then obtain A g R where s: "x0 # ys = A @ g # R" "fac m g = None" "\<forall>a\<in>set A. fac m a \<noteq> None"
      using split_list_first_prop[of "x0 # ys" "\<lambda>g. fac m g = None"] by auto
    have pA: "path (sig m) x0 A g" using p unfolding s(1) by (auto simp: path_append)
    have "set A \<subseteq> set (butlast (x0 # ys))" unfolding s(1) by (simp add: butlast_append)
    then have "\<forall>a\<in>set A. inner m a \<and> sig m a \<noteq> x0"
      using nostop s(3) assms(2) unfolding s(1) by (auto simp: inner_def)
    moreover have "vh m g" using assms(2) unfolding s(1) by simp
    ultimately have "ffih_loop x0 x0 m = Some (Inr g, m)"
      using pA s(2) by (intro ffih_found)
    moreover have "g \<in> set (x0 # ys)" unfolding s(1) by simp
    ultimately show "\<exists>g\<in>set (x0 # ys). fac m g = None \<and> ffih_loop x0 x0 m = Some (Inr g, m)"
      using s(2) by blast
  }
  {
    assume all: "\<forall>g\<in>set (x0 # ys). fac m g \<noteq> None"
    obtain zs l where zl: "x0 # ys = zs @ [l]" by (cases "x0 # ys" rule: rev_cases) auto
    from p have pz: "path (sig m) x0 zs l" and sl: "sig m l = x0"
      unfolding zl by (simp_all add: path_snoc)
    have "\<forall>x\<in>set zs. inner m x \<and> sig m x \<noteq> x0"
      using nostop all assms(2) unfolding zl by (auto simp: inner_def)
    moreover have "inner m l" using all assms(2) unfolding zl by (simp add: inner_def)
    ultimately show "ffih_loop x0 x0 m = Some (Inl TopologyError, m)"
      using pz sl by (intro ffih_turn)
  }
qed

text \<open>
  In a mesh that satisfies the invariant, for a live halfedge \<open>he\<close> with null origin
  and a live node \<open>n\<close>, \<^verbatim>\<open>attach_halfedge_to_node\<close> behaves as follows.  If \<open>n\<close> is isolated the
  call succeeds; it sets the origin of \<open>he\<close> to \<open>n\<close>, the halfedge of \<open>n\<close> to \<open>he\<close>, the prev of
  \<open>he\<close> to its pair and the next of the pair to \<open>he\<close>.  If \<open>n\<close> is not isolated and some
  halfedge that enters \<open>n\<close> has a null face, the call succeeds with such a halfedge \<open>g\<close>: the
  origin of \<open>he\<close> is \<open>n\<close>, \<open>g.next = he\<close>, \<open>he.prev = g\<close>, \<open>he.pair.next\<close> is the old \<open>g.next\<close>
  and the prev of the old \<open>g.next\<close> is \<open>he.pair\<close>.  In both cases nothing else is changed.
  If \<open>n\<close> is not isolated and no halfedge that enters \<open>n\<close> has a null face, the call throws
  \<^verbatim>\<open>bad_topology_error\<close> after the origin has been set; and this is the only case in which it
  throws \<^verbatim>\<open>bad_topology_error\<close>.
\<close>

lemma attach_in_manifold_mesh:
  assumes "mesh_inv m" "vh m he" "org m he = None" "vn m n"
  shows "(nhe m n = None \<longrightarrow>
      (\<exists>m'. attach_halfedge_to_node he n m = Some (Inr (), m') \<and>
         org m' he = Some n \<and> nhe m' n = Some he \<and> prv m' he = par m he \<and>
         nxt m' (par m he) = he \<and>
         org m' = (org m)(he := Some n) \<and> nhe m' = (nhe m)(n := Some he) \<and>
         nxt m' = (nxt m)(par m he := he) \<and> prv m' = (prv m)(he := par m he) \<and>
         par m' = par m \<and> fac m' = fac m \<and> vh m' = vh m \<and> vn m' = vn m)) \<and>
    (nhe m n \<noteq> None \<and> (\<exists>g\<in>incoming m n. fac m g = None) \<longrightarrow>
      (\<exists>g m'. g \<in> incoming m n \<and> fac m g = None \<and>
         attach_halfedge_to_node he n m = Some (Inr (), m') \<and>
         org m' he = Some n \<and> nxt m' g = he \<and> prv m' he = g \<and>
         nxt m' (par m he) = nxt m g \<and> prv m' (nxt m g) = par m he \<and>
         org m' = (org m)(he := Some n) \<and> nhe m' = nhe m \<and>
         nxt m' = (nxt m)(g := he, par m he := nxt m g) \<and>
         prv m' = (prv m)(he := g, nxt m g := par m he) \<and>
         par m' = par m \<and> fac m' = fac m \<and> vh m' = vh m \<and> vn m' = vn m)) \<and>
    (nhe m n \<noteq> None \<and> (\<forall>g\<in>incoming m n. fac m g \<noteq> None) \<longrightarrow>
      attach_halfedge_to_node he n m = Some (Inl TopologyError, w_origin he (Some n) m)) \<and>
    ((\<exists>m'. attach_halfedge_to_node he n m = Some (Inl TopologyError, m')) \<longleftrightarrow>
      nhe m n \<noteq> None \<and> (\<forall>g\<in>incoming m n. fac m g \<noteq> None))"
proof -
  note iv = invD[OF assms(1)]
  let ?hp = "par m he"
  let ?m1 = "w_origin he (Some n) m"
  have hp: "vh m ?hp" using iv(2) assms(2) by (rule vh_par)
  have iso: "\<exists>m'. attach_halfedge_to_node he n m = Some (Inr (), m') \<and>
         org m' he = Some n \<and> nhe m' n = Some he \<and> prv m' he = par m he \<and>
         nxt m' (par m he) = he \<and>
         org m' = (org m)(he := Some n) \<and> nhe m' = (nhe m)(n := Some he) \<and>
         nxt m' = (nxt m)(par m he := he) \<and> prv m' = (prv m)(he := par m he) \<and>
         par m' = par m \<and> fac m' = fac m \<and> vh m' = vh m \<and> vn m' = vn m"
    if "nhe m n = None"
    using attach_isolated[OF assms(2) hp assms(4) that]
    by (intro exI[of _ "att_iso he n m"]) (simp add: att_iso_reads[OF assms(2) hp assms(4)])
  {
    fix h0 assume h0: "nhe m n = Some h0"
    have vh0: "vh m h0" using iv(8) assms(4) h0 by (simp add: node_he_def)
    have x0: "par m h0 \<in> incoming m n" using iv(2,8) assms(4) h0 by (rule node_he_incoming)
    from iv(10) obtain xs where xs: "cyc (sig m) xs" "set xs = incoming m n"
      unfolding fan_def by blast
    have "par m h0 \<in> set xs" using x0 xs(2) by simp
    from cyc_to_first[OF xs(1) this] obtain ys where ys: "cyc (sig m) (par m h0 # ys)"
        "set (par m h0 # ys) = incoming m n"
      unfolding xs(2) by blast
    have sig1: "sig ?m1 = sig m" by (rule sig_eqI) simp_all
    have c1: "cyc (sig ?m1) (par m h0 # ys)" using ys(1) by (simp add: sig1)
    have v1: "\<forall>x\<in>set (par m h0 # ys). vh ?m1 x \<and> vh ?m1 (nxt ?m1 x)"
      unfolding ys(2) using iv(1) by (auto simp: incoming_def vh_nxt)
    note wt = walk_total[OF c1 v1, unfolded ys(2)]
    have run: "attach_halfedge_to_node he n m =
        bnd (ffih_loop (par m h0) (par m h0)) (\<lambda>free_in_he.
         bnd (get_next free_in_he) (\<lambda>free_out_he.
         bnd (set_next free_in_he he) (\<lambda>_.
         bnd (set_prev he free_in_he) (\<lambda>_.
         bnd (get_pair he) (\<lambda>p. bnd (set_next p free_out_he) (\<lambda>_.
         bnd (get_pair he) (\<lambda>p'. set_prev free_out_he p'))))))) ?m1"
      using assms(2,4) h0 vh0
      by (simp add: attach_halfedge_to_node_def find_free_incident_halfedge_n_def exec)
    have "\<exists>g m'. g \<in> incoming m n \<and> fac m g = None \<and>
         attach_halfedge_to_node he n m = Some (Inr (), m') \<and>
         org m' he = Some n \<and> nxt m' g = he \<and> prv m' he = g \<and>
         nxt m' (par m he) = nxt m g \<and> prv m' (nxt m g) = par m he \<and>
         org m' = (org m)(he := Some n) \<and> nhe m' = nhe m \<and>
         nxt m' = (nxt m)(g := he, par m he := nxt m g) \<and>
         prv m' = (prv m)(he := g, nxt m g := par m he) \<and>
         par m' = par m \<and> fac m' = fac m \<and> vh m' = vh m \<and> vn m' = vn m"
      if "\<exists>g\<in>incoming m n. fac m g = None"
    proof -
      from wt(1) that obtain g where g: "g \<in> incoming m n" "fac m g = None"
          "ffih_loop (par m h0) (par m h0) ?m1 = Some (Inr g, ?m1)"
        by auto
      have vg: "vh m g" and og: "org m (par m g) = Some n" using g(1) by (simp_all add: incoming_def)
      have vo: "vh m (nxt m g)" using iv(1) vg by (rule vh_nxt)
      from attach_splice[OF assms(2) hp assms(4) h0 vh0 g(3)] vo
      have a: "attach_halfedge_to_node he n m = Some (Inr (), att_splice he n g m)" by simp
      note r = att_splice_reads[OF assms(2) hp vg vo]
      have "org m (nxt m g) = Some n" using org_nxt[OF iv(4) vg] og by simp
      then have o_he: "nxt m g \<noteq> he" using assms(3) by auto
      have "par m ?hp = he" using iv(2) assms(2) by (rule par_par)
      then have g_hp: "g \<noteq> ?hp" using og assms(3) by auto
      show ?thesis
        using g(1,2) a o_he g_hp
        by (intro exI[of _ g] exI[of _ "att_splice he n g m"]) (simp add: r)
    qed
    moreover have "attach_halfedge_to_node he n m = Some (Inl TopologyError, ?m1)"
      if "\<forall>g\<in>incoming m n. fac m g \<noteq> None"
      using wt(2) that by (simp add: run bnd_def)
    ultimately have "(\<exists>g\<in>incoming m n. fac m g = None) \<longrightarrow> (\<exists>g m'. g \<in> incoming m n \<and> fac m g = None \<and>
         attach_halfedge_to_node he n m = Some (Inr (), m') \<and>
         org m' he = Some n \<and> nxt m' g = he \<and> prv m' he = g \<and>
         nxt m' (par m he) = nxt m g \<and> prv m' (nxt m g) = par m he \<and>
         org m' = (org m)(he := Some n) \<and> nhe m' = nhe m \<and>
         nxt m' = (nxt m)(g := he, par m he := nxt m g) \<and>
         prv m' = (prv m)(he := g, nxt m g := par m he) \<and>
         par m' = par m \<and> fac m' = fac m \<and> vh m' = vh m \<and> vn m' = vn m)"
      "(\<forall>g\<in>incoming m n. fac m g \<noteq> None) \<longrightarrow>
         attach_halfedge_to_node he n m = Some (Inl TopologyError, ?m1)"
      by blast+
  }
  note non_iso = this
  have iff: "(\<exists>m'. attach_halfedge_to_node he n m = Some (Inl TopologyError, m')) \<longleftrightarrow>
      nhe m n \<noteq> None \<and> (\<forall>g\<in>incoming m n. fac m g \<noteq> None)"
  proof (cases "nhe m n")
    case None
    with iso show ?thesis by auto
  next
    case (Some h0)
    show ?thesis
    proof (cases "\<exists>g\<in>incoming m n. fac m g = None")
      case True
      with non_iso(1)[OF Some] Some show ?thesis by auto
    next
      case False
      with non_iso(2)[OF Some] Some show ?thesis by auto
    qed
  qed
  show ?thesis
    using iso non_iso iff by (intro conjI impI) auto
qed


text \<open>Witness meshes: an edge and a third node, and two triangles glued along all three
  edges, each followed by the creation of a new edge.\<close>

definition build_two :: "node_handle M" where
  "build_two = bnd build_edge (\<lambda>_. add_node (pt 2 2))"

definition build_loose :: "edge_handle M" where
  "build_loose = bnd build_two (\<lambda>_. get_new_edge)"

definition build_full :: "edge_handle M" where
  "build_full = bnd build_pillow (\<lambda>_. get_new_edge)"

lemma keeps_build_edge: "keeps build_edge"
  unfolding build_edge_def by (intro keeps_bnd keeps_add_node keeps_add_edge)

lemma keeps_build_two: "keeps build_two"
  unfolding build_two_def by (intro keeps_bnd keeps_add_node keeps_build_edge)

lemma keeps_build_triangle: "keeps build_triangle"
  unfolding build_triangle_def by (intro keeps_bnd keeps_add_node keeps_add_edge keeps_add_face)

lemma keeps_build_pillow: "keeps build_pillow"
  unfolding build_pillow_def by (intro keeps_bnd keeps_build_triangle keeps_add_face)

lemma He_eq_iff: "g = He e b \<longleftrightarrow> edge_id g = e \<and> second g = b"
  by (cases g) auto

lemma two_facts:
  "\<exists>M. build_two empty_mesh = Some (Inr 2, M) \<and> edge_ctr M = 1 \<and>
      vn M 0 \<and> vn M 2 \<and> nhe M 2 = None \<and> nhe M 0 \<noteq> None \<and>
      vh M (He 0 True) \<and> par M (He 0 True) = He 0 False \<and> org M (He 0 False) = Some 0 \<and>
      fac M (He 0 True) = None \<and> nxt M (He 0 True) = He 0 False \<and>
      (\<forall>g. vh M g \<and> org M (par M g) = Some 0 \<longrightarrow> g = He 0 True)"
  by (auto simp: run build_two_def He_eq_iff split: if_splits)

lemma pillow_facts:
  "\<exists>M. build_pillow empty_mesh = Some (Inr 1, M) \<and> edge_ctr M = 3 \<and>
      vn M 0 \<and> nhe M 0 \<noteq> None \<and>
      (\<forall>g. vh M g \<and> org M (par M g) = Some 0 \<longrightarrow> fac M g \<noteq> None)"
  by (auto simp: run build_pillow_def He_eq_iff split: if_splits)


lemma attach_in_manifold_mesh_example:
  "(\<exists>m'. attach_halfedge_to_node (He 1 False) 2 (after build_loose) = Some (Inr (), m') \<and>
      org m' (He 1 False) = Some 2 \<and> nhe m' 2 = Some (He 1 False) \<and>
      prv m' (He 1 False) = He 1 True \<and> nxt m' (He 1 True) = He 1 False) \<and>
   (\<exists>m'. attach_halfedge_to_node (He 1 False) 0 (after build_loose) = Some (Inr (), m') \<and>
      org m' (He 1 False) = Some 0 \<and> nxt m' (He 0 True) = He 1 False \<and>
      prv m' (He 1 False) = He 0 True \<and> nxt m' (He 1 True) = He 0 False \<and>
      prv m' (He 0 False) = He 1 True) \<and>
   (\<exists>m'. attach_halfedge_to_node (He 3 False) 0 (after build_full) = Some (Inl TopologyError, m'))"
proof (intro conjI)
  from two_facts obtain M where M: "build_two empty_mesh = Some (Inr 2, M)" "edge_ctr M = 1"
    "vn M 0" "vn M 2" "nhe M 2 = None" "nhe M 0 \<noteq> None"
    "vh M (He 0 True)" "par M (He 0 True) = He 0 False" "org M (He 0 False) = Some 0"
    "fac M (He 0 True) = None" "nxt M (He 0 True) = He 0 False"
    "\<forall>g. vh M g \<and> org M (par M g) = Some 0 \<longrightarrow> g = He 0 True"
    by (elim exE conjE) (rule that; assumption)
  let ?L = "new_edge M"
  have "build_loose empty_mesh = Some (Inr 1, ?L)"
    using M(1,2) by (simp add: build_loose_def bnd_def get_new_edge_eq)
  then have a: "after build_loose = ?L" by (rule after_eq)
  have "wellformed M" using keepsD[OF keeps_build_two wellformed_empty M(1)] .
  then have iL: "mesh_inv ?L" by (intro inv_new_edge) (simp add: wellformed_def)
  have vL: "vh ?L (He 1 False)" and oL: "org ?L (He 1 False) = None"
    and n2: "vn ?L 2" and n0: "vn ?L 0" and pL: "par ?L (He 1 False) = He 1 True"
    using M(2-4) by simp_all
  have iso: "nhe ?L 2 = None" using M(5) by simp
  from attach_in_manifold_mesh[OF iL vL oL n2, THEN conjunct1, THEN mp, OF iso]
  show "\<exists>m'. attach_halfedge_to_node (He 1 False) 2 (after build_loose) = Some (Inr (), m') \<and>
      org m' (He 1 False) = Some 2 \<and> nhe m' 2 = Some (He 1 False) \<and>
      prv m' (He 1 False) = He 1 True \<and> nxt m' (He 1 True) = He 1 False"
    unfolding a pL by blast
  have inc: "incoming ?L 0 = {He 0 True}"
    using M(2,7-9,12) by (auto simp: incoming_def split: if_splits)
  have free: "nhe ?L 0 \<noteq> None \<and> (\<exists>g\<in>incoming ?L 0. fac ?L g = None)"
    using M(2,6,10) by (simp add: inc)
  have nL: "nxt ?L (He 0 True) = He 0 False" using M(2,11) by simp
  from attach_in_manifold_mesh[OF iL vL oL n0, THEN conjunct2, THEN conjunct1, THEN mp,
      OF free]
  show "\<exists>m'. attach_halfedge_to_node (He 1 False) 0 (after build_loose) = Some (Inr (), m') \<and>
      org m' (He 1 False) = Some 0 \<and> nxt m' (He 0 True) = He 1 False \<and>
      prv m' (He 1 False) = He 0 True \<and> nxt m' (He 1 True) = He 0 False \<and>
      prv m' (He 0 False) = He 1 True"
    unfolding a pL inc using nL by auto
next
  from pillow_facts obtain P where P: "build_pillow empty_mesh = Some (Inr 1, P)"
    "edge_ctr P = 3" "vn P 0" "nhe P 0 \<noteq> None"
    "\<forall>g. vh P g \<and> org P (par P g) = Some 0 \<longrightarrow> fac P g \<noteq> None"
    by (elim exE conjE) (rule that; assumption)
  let ?L = "new_edge P"
  have "build_full empty_mesh = Some (Inr 3, ?L)"
    using P(1,2) by (simp add: build_full_def bnd_def get_new_edge_eq)
  then have a: "after build_full = ?L" by (rule after_eq)
  have "wellformed P" using keepsD[OF keeps_build_pillow wellformed_empty P(1)] .
  then have iL: "mesh_inv ?L" by (intro inv_new_edge) (simp add: wellformed_def)
  have vL: "vh ?L (He 3 False)" and oL: "org ?L (He 3 False) = None" and n0: "vn ?L 0"
    using P(2,3) by simp_all
  have full: "nhe ?L 0 \<noteq> None \<and> (\<forall>g\<in>incoming ?L 0. fac ?L g \<noteq> None)"
    using P(4,5) by (auto simp: incoming_def split: if_splits)
  from attach_in_manifold_mesh[OF iL vL oL n0, THEN conjunct2, THEN conjunct2,
      THEN conjunct1, THEN mp, OF full]
  show "\<exists>m'. attach_halfedge_to_node (He 3 False) 0 (after build_full) = Some (Inl TopologyError, m')"
    unfolding a by blast
qed


section \<open>Meshes after a failed \<^verbatim>\<open>add_edge\<close>\<close>

text \<open>
  A caller that catches what a call throws and goes on with the mesh as the call left it.
\<close>

definition attempt :: "'a M \<Rightarrow> unit M" where
  "attempt f = (\<lambda>m. case f m of None \<Rightarrow> None | Some (r, m') \<Rightarrow> Some (Inr (), m'))"

text \<open>
  Two triangles glued along their three edges (nodes 0, 1, 2, all surrounded by faces) and
  two more nodes 3 and 4.  \<^verbatim>\<open>add_edge(3, 0)\<close> and \<^verbatim>\<open>add_edge(4, 0)\<close> both throw
  \<^verbatim>\<open>bad_topology_error\<close> at the second \<^verbatim>\<open>attach_halfedge_to_node\<close>; each leaves its edge in the
  store, attached at its first node, the second halfedge with origin 0.  Then
  \<^verbatim>\<open>add_edge(4, 3)\<close>, and \<^verbatim>\<open>add_face\<close> on the three boundary halfedges from 3 to 0, from 0
  to 4 and from 4 to 3.
\<close>

definition build_base :: "node_handle M" where
  "build_base = bnd build_pillow (\<lambda>_. bnd (add_node (pt 5 5)) (\<lambda>_. add_node (pt 6 6)))"

definition build_spike :: "unit M" where
  "build_spike = bnd build_base (\<lambda>_. attempt (add_edge 3 0))"

definition build_spike2 :: "unit M" where
  "build_spike2 = bnd build_spike (\<lambda>_. attempt (add_edge 4 0))"

definition build_spikes :: "halfedge_handle M" where
  "build_spikes = bnd build_spike2 (\<lambda>_. add_edge 4 3)"

definition spikes_adjacent :: "bool M" where
  "spikes_adjacent = bnd build_spikes (\<lambda>_. make_adjacent (He 3 False) (He 4 True))"

definition spikes_face :: "face_handle M" where
  "spikes_face = bnd build_spikes (\<lambda>_. add_face (He 3 False) (He 4 True) (He 5 False))"

lemma spikes_facts:
  "\<exists>B S1 S2 S S' F. build_base empty_mesh = Some (Inr 4, B) \<and>
     build_spike empty_mesh = Some (Inr (), S1) \<and>
     build_spike2 empty_mesh = Some (Inr (), S2) \<and>
     build_spikes empty_mesh = Some (Inr (He 5 False), S) \<and>
     spikes_adjacent empty_mesh = Some (Inr True, S') \<and>
     spikes_face empty_mesh = Some (Inr 2, F) \<and>
     add_edge 3 0 B = Some (Inl TopologyError, S1) \<and>
     add_edge 4 0 S1 = Some (Inl TopologyError, S2) \<and>
     add_edge 4 3 S2 = Some (Inr (He 5 False), S) \<and>
     fac S (He 3 False) = None \<and> fac S (He 4 True) = None \<and> fac S (He 5 False) = None \<and>
     par S (He 3 False) = He 3 True \<and> par S (He 4 True) = He 4 False \<and>
     org S (He 3 True) = Some 0 \<and> org S (He 4 True) = Some 0 \<and>
     nxt S (He 3 False) = He 3 True \<and> prv S (He 4 True) = He 4 False \<and>
     find_free_incident_halfedge_h (He 4 False) (He 3 False) S = Some (Inr (He 4 False), S) \<and>
     make_adjacent (He 3 False) (He 4 True) S = Some (Inr True, S') \<and>
     nxt S' (He 3 False) = He 4 True \<and> prv S' (He 4 True) = He 4 False \<and>
     add_face (He 3 False) (He 4 True) (He 5 False) S = Some (Inr 2, F) \<and>
     vh F (He 3 False) \<and> vh F (He 4 True) \<and>
     nxt F (He 3 False) = He 4 True \<and> prv F (He 4 True) = He 4 False"
  by (simp add: run build_pillow_def build_base_def build_spike_def build_spike2_def
      build_spikes_def attempt_def spikes_adjacent_def spikes_face_def)

text \<open>
  C6.  In the mesh above \<open>he_in\<close>, from node 3 to node 0, and \<open>he_out\<close>, from node 0 to
  node 4, are boundary halfedges with \<open>in.pair.origin = out.origin\<close> and \<open>in.next \<noteq> out\<close>;
  \<^verbatim>\<open>add_face\<close> passes them to \<^verbatim>\<open>make_adjacent\<close>.  The walk from \<open>out.pair\<close> bounded by \<open>he_in\<close>
  returns \<open>out.pair\<close>, which is also \<open>d\<close>, the old \<open>out.prev\<close>, and whose next is \<open>he_out\<close>.
  The six assignments are made and the call returns \<open>true\<close>, but the last one, \<open>h.prev = d\<close>,
  writes \<open>out.prev\<close> again: afterwards \<open>in.next = out\<close> holds and \<open>out.prev = in\<close> does not.
\<close>

theorem make_adjacent_overwrites_prev:
  "add_edge 3 0 (after build_base) = Some (Inl TopologyError, after build_spike) \<and>
   add_edge 4 0 (after build_spike) = Some (Inl TopologyError, after build_spike2) \<and>
   add_edge 4 3 (after build_spike2) = Some (Inr (He 5 False), after build_spikes) \<and>
   fac (after build_spikes) (He 3 False) = None \<and> fac (after build_spikes) (He 4 True) = None \<and>
   org (after build_spikes) (par (after build_spikes) (He 3 False))
     = org (after build_spikes) (He 4 True) \<and>
   nxt (after build_spikes) (He 3 False) \<noteq> He 4 True \<and>
   find_free_incident_halfedge_h (par (after build_spikes) (He 4 True)) (He 3 False)
     (after build_spikes) = Some (Inr (prv (after build_spikes) (He 4 True)), after build_spikes) \<and>
   make_adjacent (He 3 False) (He 4 True) (after build_spikes)
     = Some (Inr True, after spikes_adjacent) \<and>
   nxt (after spikes_adjacent) (He 3 False) = He 4 True \<and>
   prv (after spikes_adjacent) (He 4 True) \<noteq> He 3 False"
proof -
  from spikes_facts obtain B S1 S2 S S' F where
    b: "build_base empty_mesh = Some (Inr 4, B)" "build_spike empty_mesh = Some (Inr (), S1)"
      "build_spike2 empty_mesh = Some (Inr (), S2)"
      "build_spikes empty_mesh = Some (Inr (He 5 False), S)"
      "spikes_adjacent empty_mesh = Some (Inr True, S')"
    and f: "add_edge 3 0 B = Some (Inl TopologyError, S1)"
      "add_edge 4 0 S1 = Some (Inl TopologyError, S2)"
      "add_edge 4 3 S2 = Some (Inr (He 5 False), S)"
      "fac S (He 3 False) = None" "fac S (He 4 True) = None"
      "par S (He 3 False) = He 3 True" "par S (He 4 True) = He 4 False"
      "org S (He 3 True) = Some 0" "org S (He 4 True) = Some 0"
      "nxt S (He 3 False) = He 3 True" "prv S (He 4 True) = He 4 False"
      "find_free_incident_halfedge_h (He 4 False) (He 3 False) S = Some (Inr (He 4 False), S)"
      "make_adjacent (He 3 False) (He 4 True) S = Some (Inr True, S')"
      "nxt S' (He 3 False) = He 4 True" "prv S' (He 4 True) = He 4 False"
    by (elim exE conjE) (rule that; assumption)
  have a: "after build_base = B" "after build_spike = S1" "after build_spike2 = S2"
    "after build_spikes = S" "after spikes_adjacent = S'"
    using b by (simp_all add: after_eq)
  show ?thesis unfolding a using f by simp
qed

text \<open>
  C1.  In the same mesh \<^verbatim>\<open>add_face\<close> on the three halfedges returns the new face, and in
  the mesh it leaves the halfedge \<open>h\<close> from node 3 to node 0 has \<open>h.next.prev \<noteq> h\<close>:
  \<open>h.next\<close> is the halfedge from 0 to 4, whose prev is its own pair.
\<close>

theorem add_face_breaks_next_prev:
  "add_edge 3 0 (after build_base) = Some (Inl TopologyError, after build_spike) \<and>
   add_edge 4 0 (after build_spike) = Some (Inl TopologyError, after build_spike2) \<and>
   add_edge 4 3 (after build_spike2) = Some (Inr (He 5 False), after build_spikes) \<and>
   add_face (He 3 False) (He 4 True) (He 5 False) (after build_spikes)
     = Some (Inr 2, after spikes_face) \<and>
   vh (after spikes_face) (He 3 False) \<and>
   nxt (after spikes_face) (He 3 False) = He 4 True \<and>
   prv (after spikes_face) (He 4 True) = He 4 False \<and>
   prv (after spikes_face) (nxt (after spikes_face) (He 3 False)) \<noteq> He 3 False"
proof -
  from spikes_facts obtain B S1 S2 S S' F where
    b: "build_base empty_mesh = Some (Inr 4, B)" "build_spike empty_mesh = Some (Inr (), S1)"
      "build_spike2 empty_mesh = Some (Inr (), S2)"
      "build_spikes empty_mesh = Some (Inr (He 5 False), S)"
      "spikes_face empty_mesh = Some (Inr 2, F)"
    and f: "add_edge 3 0 B = Some (Inl TopologyError, S1)"
      "add_edge 4 0 S1 = Some (Inl TopologyError, S2)"
      "add_edge 4 3 S2 = Some (Inr (He 5 False), S)"
      "add_face (He 3 False) (He 4 True) (He 5 False) S = Some (Inr 2, F)"
      "vh F (He 3 False)" "nxt F (He 3 False) = He 4 True" "prv F (He 4 True) = He 4 False"
    by (elim exE conjE) (rule that; assumption)
  have a: "after build_base = B" "after build_spike = S1" "after build_spike2 = S2"
    "after build_spikes = S" "after spikes_face = F"
    using b by (simp_all add: after_eq)
  show ?thesis unfolding a using f by simp
qed


section \<open>What \<^verbatim>\<open>attach_halfedge_to_node\<close> does in any mesh\<close>




















section \<open>Counting faces across \<^verbatim>\<open>split_edge\<close>\<close>

subsection \<open>What the operations do to the sets of nodes and faces\<close>











lemma rem_links_stable:
  "vf (rem_links e m) = vf m" "face_ctr (rem_links e m) = face_ctr m"
  "vn (rem_links e m) = vn m" "node_ctr (rem_links e m) = node_ctr m"
  by (simp_all add: rem_links_def det_def det_node_def Let_def)



subsection \<open>\<^verbatim>\<open>split_edge\<close> in pieces\<close>











subsection \<open>The postcondition of \<^verbatim>\<open>split_edge\<close>\<close>











end
